theory Spec2Isabelle
  imports Main
begin

section \<open>JavaScript values\<close>

text \<open>
  The values that flow through \<^verbatim>\<open>instantiateProvider.js\<close> as queries, options and
  query results are plain data: \<^verbatim>\<open>undefined\<close>, \<^verbatim>\<open>null\<close>, booleans, numbers,
  strings, arrays and plain objects. Numbers are the integers and \<^verbatim>\<open>NaN\<close>, the
  number that is falsy without being zero (the other numbers, fractions and infinities,
  are truthy and not iterable, as the non-zero integers are); strings are lists of
  characters, one character per code unit.

  Reading a property, \<^verbatim>\<open>obj[k]\<close>, is modelled as a lookup among the own
  properties. The keys under which this file reads its tables (provider keys, result
  keys, the keys of options) are taken not to be names of the members that every object
  inherits from \<^verbatim>\<open>Object.prototype\<close> (\<^verbatim>\<open>constructor\<close>, \<^verbatim>\<open>toString\<close>,
  ...), which such a read would find.

  An object is the list of its own enumerable properties in the order in which
  JavaScript enumerates them (\<^verbatim>\<open>for ... in\<close>, \<^verbatim>\<open>Object.keys\<close>, spread): the
  array-index keys in ascending numeric order first, then the other keys in the order
  of their creation.
\<close>

datatype jsval =
    JUndefined
  | JNull
  | JBool bool
  | JNum int
  | JNaN
  | JStr string
  | JArr "jsval list"
  | JObj "(string \<times> jsval) list"

datatype js_error = TypeError

subsection \<open>Property keys and their order\<close>

definition digit_char :: "nat \<Rightarrow> char" where
  "digit_char d = ''0123456789'' ! d"

text \<open>The decimal rendering of an array index, as \<^verbatim>\<open>String(i)\<close> gives it.\<close>

fun show_nat :: "nat \<Rightarrow> string" where
  "show_nat n =
     (if n < 10 then [digit_char n]
      else show_nat (n div 10) @ [digit_char (n mod 10)])"

definition digit_val :: "char \<Rightarrow> nat option" where
  "digit_val c = map_of (zip ''0123456789'' [0, 1, 2, 3, 4, 5, 6, 7, 8, 9]) c"

fun digits_val :: "nat \<Rightarrow> string \<Rightarrow> nat option" where
  "digits_val acc [] = Some acc"
| "digits_val acc (c # cs) =
     (case digit_val c of None \<Rightarrow> None | Some d \<Rightarrow> digits_val (10 * acc + d) cs)"

text \<open>
  A property key is an array index when it is the canonical decimal form of an integer
  in \<open>0 .. 2^32 - 2\<close>.
\<close>

definition array_index :: "string \<Rightarrow> nat option" where
  "array_index s =
     (if s = [] \<or> (hd s = CHR ''0'' \<and> s \<noteq> ''0'') then None
      else case digits_val 0 s of
             None \<Rightarrow> None
           | Some n \<Rightarrow> if n < 4294967295 then Some n else None)"

text \<open>\<open>key_before k k'\<close>: a new key \<open>k\<close> is enumerated before the existing key \<open>k'\<close>.\<close>

definition key_before :: "string \<Rightarrow> string \<Rightarrow> bool" where
  "key_before k k' =
     (case array_index k of
        None \<Rightarrow> False
      | Some i \<Rightarrow> (case array_index k' of None \<Rightarrow> True | Some j \<Rightarrow> i < j))"

text \<open>
  \<^verbatim>\<open>obj[k] = v\<close>: an existing property keeps its place; a new one takes the place
  its key has in the enumeration order.
\<close>

fun obj_put :: "(string \<times> 'v) list \<Rightarrow> string \<Rightarrow> 'v \<Rightarrow> (string \<times> 'v) list" where
  "obj_put [] k v = [(k, v)]"
| "obj_put ((k', v') # kvs) k v =
     (if k' = k then (k, v) # kvs
      else if key_before k k' then (k, v) # (k', v') # kvs
      else (k', v') # obj_put kvs k v)"

text \<open>
  Copying the properties \<open>src\<close> onto \<open>target\<close> one by one, as the spread
  \<^verbatim>\<open>{ ...target, ...src }\<close> and \<^verbatim>\<open>Object.assign\<close> do.
\<close>

definition assign :: "(string \<times> 'v) list \<Rightarrow> (string \<times> 'v) list \<Rightarrow> (string \<times> 'v) list" where
  "assign target src = foldl (\<lambda>obj (k, v). obj_put obj k v) target src"

text \<open>
  The representation invariant of an object: no key twice, and no key standing after
  one it is enumerated before.
\<close>

definition obj_ordered :: "(string \<times> 'v) list \<Rightarrow> bool" where
  "obj_ordered kvs =
     sorted_wrt (\<lambda>p q. fst p \<noteq> fst q \<and> \<not> key_before (fst q) (fst p)) kvs"

subsection \<open>The operators the source applies to values\<close>

fun truthy :: "jsval \<Rightarrow> bool" where
  "truthy JUndefined = False"
| "truthy JNull = False"
| "truthy (JBool b) = b"
| "truthy (JNum n) = (n \<noteq> 0)"
| "truthy JNaN = False"
| "truthy (JStr s) = (s \<noteq> [])"
| "truthy (JArr xs) = True"
| "truthy (JObj kvs) = True"

text \<open>\<^verbatim>\<open>a || b\<close>\<close>

definition or_else :: "jsval \<Rightarrow> jsval \<Rightarrow> jsval" where
  "or_else a b = (if truthy a then a else b)"

fun isArray :: "jsval \<Rightarrow> bool" where
  "isArray (JArr xs) = True"
| "isArray v = False"

fun typeof :: "jsval \<Rightarrow> string" where
  "typeof JUndefined = ''undefined''"
| "typeof JNull = ''object''"
| "typeof (JBool b) = ''boolean''"
| "typeof (JNum n) = ''number''"
| "typeof JNaN = ''number''"
| "typeof (JStr s) = ''string''"
| "typeof (JArr xs) = ''object''"
| "typeof (JObj kvs) = ''object''"

text \<open>
  The array spread \<^verbatim>\<open>[...v]\<close> as the language defines it, by the iteration
  protocol: an array's elements, a string's characters; every other value is not
  iterable and the spread throws.
\<close>

fun iterate :: "jsval \<Rightarrow> js_error + jsval list" where
  "iterate (JArr xs) = Inr xs"
| "iterate (JStr s) = Inr (map (\<lambda>c. JStr [c]) s)"
| "iterate v = Inl TypeError"

text \<open>
  The own enumerable properties of a value, which the object spread \<^verbatim>\<open>{...v}\<close>
  copies and \<^verbatim>\<open>for (k in v)\<close> enumerates: an object's properties, the indexed
  elements of an array or a string, and nothing for the other values.
\<close>

fun own_enumerable :: "jsval \<Rightarrow> (string \<times> jsval) list" where
  "own_enumerable (JObj kvs) = kvs"
| "own_enumerable (JArr xs) = zip (map show_nat [0..<length xs]) xs"
| "own_enumerable (JStr s) = zip (map show_nat [0..<length s]) (map (\<lambda>c. JStr [c]) s)"
| "own_enumerable v = []"

text \<open>
  The array spread as a build that compiles it away has it. Babel 6 turns
  \<^verbatim>\<open>[...a, ...b]\<close> into
  \<^verbatim>\<open>[].concat(_toConsumableArray(a), _toConsumableArray(b))\<close>, where the helper
  copies an array and hands every other value to \<^verbatim>\<open>Array.from\<close>. That function
  iterates over a string, throws for \<^verbatim>\<open>undefined\<close> and \<^verbatim>\<open>null\<close>, and treats
  every other value as array-like: it reads the elements \<^verbatim>\<open>0 .. length - 1\<close>, so
  that a boolean, a number and an object without a \<^verbatim>\<open>length\<close> give the empty
  array. \<open>len\<close> is the conversion \<^verbatim>\<open>ToLength\<close> of the language, applied to the
  value of the \<^verbatim>\<open>length\<close> property.
\<close>

fun arrayFrom :: "(jsval \<Rightarrow> nat) \<Rightarrow> jsval \<Rightarrow> js_error + jsval list" where
  "arrayFrom len (JStr s) = Inr (map (\<lambda>c. JStr [c]) s)"
| "arrayFrom len (JArr xs) = Inr xs"
| "arrayFrom len JUndefined = Inl TypeError"
| "arrayFrom len JNull = Inl TypeError"
| "arrayFrom len (JObj kvs) =
     (case map_of kvs ''length'' of
        None \<Rightarrow> Inr []
      | Some l \<Rightarrow>
          Inr (map (\<lambda>i. case map_of kvs (show_nat i) of None \<Rightarrow> JUndefined | Some v \<Rightarrow> v)
                 [0..<len l]))"
| "arrayFrom len v = Inr []"

definition toConsumableArray :: "(jsval \<Rightarrow> nat) \<Rightarrow> jsval \<Rightarrow> js_error + jsval list" where
  "toConsumableArray len arr = (case arr of JArr xs \<Rightarrow> Inr xs | v \<Rightarrow> arrayFrom len v)"

subsection \<open>The collaborators\<close>

text \<open>
  What is not code of this file: \<^verbatim>\<open>JSON.stringify\<close>, the shallow-equality
  predicate imported from \<^verbatim>\<open>./shallowEqual\<close>, and what the build makes of the array
  spread: \<open>iterate\<close> when the spread of the language runs, \<open>toConsumableArray\<close> in a
  build by Babel 6.
\<close>

record env =
  stringify :: "jsval \<Rightarrow> string"
  shallowEqual :: "jsval \<Rightarrow> jsval \<Rightarrow> bool"
  arraySpread :: "jsval \<Rightarrow> js_error + jsval list"

text \<open>The two builds.\<close>

definition native_build :: "env \<Rightarrow> bool" where
  "native_build E = (arraySpread E = iterate)"

definition babel_build :: "env \<Rightarrow> bool" where
  "babel_build E = (\<exists>len. arraySpread E = toConsumableArray len)"

section \<open>getMergedResult\<close>

text \<open>
  One round of the loop body of \<^verbatim>\<open>getMergedResult\<close>, on the accumulated
  \<^verbatim>\<open>mergedResult\<close> and the next \<^verbatim>\<open>result\<close>:
  \<^verbatim>\<open>
    if (Array.isArray(result)) {
      mergedResult = [ ...(mergedResult || []), ...result ];
    } else if (result && typeof result === 'object') {
      mergedResult = { ...(mergedResult || {}), ...result };
    } else if (typeof result !== 'undefined') {
      mergedResult = result;
    }
  \<close>
\<close>

definition merge_result :: "env \<Rightarrow> jsval \<Rightarrow> jsval \<Rightarrow> js_error + jsval" where
  "merge_result E mergedResult result =
     (if isArray result then
        (case arraySpread E (or_else mergedResult (JArr [])) of
           Inl e \<Rightarrow> Inl e
         | Inr xs \<Rightarrow>
             (case arraySpread E result of
                Inl e \<Rightarrow> Inl e
              | Inr ys \<Rightarrow> Inr (JArr (xs @ ys))))
      else if truthy result \<and> typeof result = ''object'' then
        Inr (JObj (assign (assign [] (own_enumerable (or_else mergedResult (JObj []))))
                      (own_enumerable result)))
      else if typeof result \<noteq> ''undefined'' then Inr result
      else Inr mergedResult)"

text \<open>
  The three kinds of result the loop body tells apart: the containers of its first two
  branches, the scalars of its third (every other value but \<^verbatim>\<open>undefined\<close>,
  \<^verbatim>\<open>null\<close> included), and \<^verbatim>\<open>undefined\<close>, which it skips.
\<close>

definition is_container :: "jsval \<Rightarrow> bool" where
  "is_container result = (isArray result \<or> (truthy result \<and> typeof result = ''object''))"

definition is_scalar :: "jsval \<Rightarrow> bool" where
  "is_scalar result = (\<not> is_container result \<and> typeof result \<noteq> ''undefined'')"

text \<open>The \<^verbatim>\<open>for (let providerKey in results)\<close> loop; a throw ends it.\<close>

fun merge_loop :: "env \<Rightarrow> jsval \<Rightarrow> (string \<times> jsval) list \<Rightarrow> js_error + jsval" where
  "merge_loop E mergedResult [] = Inr mergedResult"
| "merge_loop E mergedResult ((providerKey, result) # rest) =
     (case merge_result E mergedResult result of
        Inl e \<Rightarrow> Inl e
      | Inr merged \<Rightarrow> merge_loop E merged rest)"

definition getMergedResult :: "env \<Rightarrow> jsval \<Rightarrow> js_error + jsval" where
  "getMergedResult E results = merge_loop E JNull (own_enumerable results)"


section \<open>Providers, consumers and opaque functions\<close>

text \<open>
  The functions a configuration supplies (wait and clear hooks, callbacks, update hooks)
  are opaque to this module: it only calls them. Each is named by a number, and a call
  is recorded in the log of the state. They are taken not to call back into this module
  while they run.
\<close>

datatype hook = Hook nat

text \<open>A field that holds one item or an array of them, as \<^verbatim>\<open>wait\<close> and \<^verbatim>\<open>replication\<close> do.\<close>

datatype 'a one_or_many = One 'a | Many "'a list"

text \<open>\<^verbatim>\<open>if (!Array.isArray(x)) { x = [ x ]; }\<close>\<close>

fun as_array :: "'a one_or_many \<Rightarrow> 'a list" where
  "as_array (One x) = [x]"
| "as_array (Many xs) = xs"

text \<open>
  What a replicator's \<^verbatim>\<open>handleQuery(query, options, callback)\<close> does with its
  callback: it calls it before it returns, with a value, or it keeps it and calls it at
  a later turn.
\<close>

datatype response = Now jsval | Later

record replicator =
  handleQuery :: "(jsval \<Rightarrow> (string \<times> jsval) list \<Rightarrow> response) option"

record replication =
  replicator :: "replicator one_or_many option"
  reducerKeys :: "string list option"

text \<open>
  A provider definition, with the fields the query executor reads; \<open>reducers\<close> is
  \<^verbatim>\<open>Object.keys(provider.reducers)\<close>.
\<close>

record provider =
  reducers :: "string list"
  wait :: "hook one_or_many option"
  clear :: "hook one_or_many option"
  replication :: "replication one_or_many option"

text \<open>
  What is logged: a call of an opaque function with its arguments; the call of the
  callback of a \<^verbatim>\<open>handleQueries\<close> invocation when its join counter reaches zero;
  and a call \<^verbatim>\<open>handleQuery(query, options, cb)\<close> of the query handler of the provider
  \<open>key\<close>, where \<open>cb\<close> will drain the array of result handlers at the given address.
\<close>

datatype event =
    Called hook "jsval list"
  | Callback nat hook
  | HandleQuery string jsval "(string \<times> jsval) list" nat

text \<open>Sequencing of steps that may throw.\<close>

definition thenE :: "js_error + 'a \<Rightarrow> ('a \<Rightarrow> js_error + 'b) \<Rightarrow> js_error + 'b" where
  "thenE m f = (case m of Inl e \<Rightarrow> Inl e | Inr x \<Rightarrow> f x)"

text \<open>\<^verbatim>\<open>obj[k]\<close> and \<^verbatim>\<open>delete obj[k]\<close>\<close>

definition obj_get :: "(string \<times> jsval) list \<Rightarrow> string \<Rightarrow> jsval" where
  "obj_get obj k = (case map_of obj k of None \<Rightarrow> JUndefined | Some v \<Rightarrow> v)"

definition obj_delete :: "(string \<times> 'v) list \<Rightarrow> string \<Rightarrow> (string \<times> 'v) list" where
  "obj_delete obj k = filter (\<lambda>p. fst p \<noteq> k) obj"

section \<open>getQueryHandler\<close>

text \<open>The inner loop: the first replicator with a \<^verbatim>\<open>handleQuery\<close>.\<close>

fun first_handleQuery ::
  "replicator list \<Rightarrow> (jsval \<Rightarrow> (string \<times> jsval) list \<Rightarrow> response) option" where
  "first_handleQuery [] = None"
| "first_handleQuery (r # rs) =
     (case handleQuery r of Some h \<Rightarrow> Some h | None \<Rightarrow> first_handleQuery rs)"

text \<open>
  The outer loop over \<^verbatim>\<open>replication\<close>; the reducer keys default to the keys of the
  provider's reducers.
\<close>

fun getQueryHandler_loop ::
  "provider \<Rightarrow> replication list \<Rightarrow>
   ((jsval \<Rightarrow> (string \<times> jsval) list \<Rightarrow> response) \<times> string list) option" where
  "getQueryHandler_loop provider [] = None"
| "getQueryHandler_loop provider (r # rs) =
     (case replicator r of
        None \<Rightarrow> getQueryHandler_loop provider rs
      | Some reps \<Rightarrow>
          (case first_handleQuery (as_array reps) of
             Some h \<Rightarrow>
               Some (h, case reducerKeys r of Some ks \<Rightarrow> ks | None \<Rightarrow> reducers provider)
           | None \<Rightarrow> getQueryHandler_loop provider rs))"

definition getQueryHandler ::
  "provider \<Rightarrow> ((jsval \<Rightarrow> (string \<times> jsval) list \<Rightarrow> response) \<times> string list) option" where
  "getQueryHandler provider =
     (case replication provider of
        None \<Rightarrow> None
      | Some r \<Rightarrow> getQueryHandler_loop provider (as_array r))"

section \<open>handleQueries\<close>

text \<open>
  A consumer context (\<^verbatim>\<open>fauxInstance\<close>) with the fields \<^verbatim>\<open>handleQueries\<close> reads
  and writes. \<open>queries\<close>, \<open>query\<close>, \<open>queryOptions\<close> and \<open>queriesOptions\<close> are what
  \<^verbatim>\<open>getQueries\<close>, \<^verbatim>\<open>getQuery\<close>, \<^verbatim>\<open>getQueryOptions\<close> and
  \<^verbatim>\<open>getQueriesOptions\<close> return for it, each of which returns the value memoized on the
  context when there is one: \<open>queries\<close> is \<^verbatim>\<open>null\<close> (\<open>None\<close>) or the mapping from
  provider keys to sub-queries, the options are objects. \<open>props_query\<close>,
  \<open>props_result\<close> and \<open>props_results\<close> are the properties \<^verbatim>\<open>query\<close>,
  \<^verbatim>\<open>result\<close> and \<^verbatim>\<open>results\<close> of its \<^verbatim>\<open>props\<close>.
\<close>

record fauxInstance =
  queries :: "(string \<times> jsval) list option"
  query :: jsval
  queryOptions :: "(string \<times> jsval) list option"
  queriesOptions :: "(string \<times> (string \<times> jsval) list) list"
  props_query :: jsval
  props_result :: jsval
  props_results :: "(string \<times> jsval) list option"
  doUpdate :: jsval
  update :: "hook option"

text \<open>
  The variables one call of \<^verbatim>\<open>handleQueries\<close> closes over: its consumer, its join
  counter, the results of the previous round and its callback.
\<close>

record invocation =
  faux :: nat
  semaphore :: int
  previousResults :: "(string \<times> jsval) list"
  callback :: "hook option"

text \<open>
  The closure \<^verbatim>\<open>resultHandler\<close>: the invocation that made it, and the \<^verbatim>\<open>key\<close>
  and \<^verbatim>\<open>resultKey\<close> of its round of the loop.
\<close>

datatype resultHandler = ResultHandler (h_inv: nat) (h_key: string) (h_resultKey: string)

text \<open>
  The state the executor works on. Its consumers are consumers that share one context
  which carries the three tables: \<open>providers\<close>, \<open>activeQueries\<close> and
  \<open>queryResults\<close> are what \<^verbatim>\<open>getProviders\<close>, \<^verbatim>\<open>getActiveQueries\<close> and
  \<^verbatim>\<open>getQueryResults\<close> return for each of them. (A consumer whose props and
  context have no \<^verbatim>\<open>activeQueries\<close> or \<^verbatim>\<open>queryResults\<close> gets an empty
  object of its own from these functions, and is then alone in its state.) \<open>activeQueries\<close> maps a
  result key to an array of result handlers; the arrays are objects of their own, which
  the callback handed to \<^verbatim>\<open>handleQuery\<close> keeps hold of, so they live in a store
  \<open>resultHandlers\<close> of arrays by address, each with the result key of the callback that
  drains it. \<open>in_flight\<close> lists the addresses whose callback a replicator holds and has
  not called yet.
\<close>

record qstate =
  providers :: "(string \<times> provider) list"
  fauxInstances :: "fauxInstance list"
  invocations :: "invocation list"
  resultHandlers :: "(string \<times> resultHandler list) list"
  activeQueries :: "(string \<times> nat) list"
  queryResults :: "(string \<times> jsval) list"
  in_flight :: "nat list"
  log :: "event list"

text \<open>
  \<^verbatim>\<open>
    if (provider.wait) {
      if (Array.isArray(provider.wait)) { provider.wait.forEach(fn => fn()); }
      else { provider.wait(); }
    }
  \<close>
\<close>

definition wait_hooks :: "provider \<Rightarrow> event list" where
  "wait_hooks provider =
     (case wait provider of
        None \<Rightarrow> []
      | Some (Many fns) \<Rightarrow> map (\<lambda>fn. Called fn []) fns
      | Some (One fn) \<Rightarrow> [Called fn []])"

text \<open>
  \<^verbatim>\<open>
    if (provider.clear) {
      if (Array.isArray(provider.clear)) {
        provider.clear.forEach(fn => fn(fauxInstance.doUpdate));
      } else { provider.clear(); }
    }
  \<close>
\<close>

definition clear_hooks :: "provider \<Rightarrow> jsval \<Rightarrow> event list" where
  "clear_hooks provider flag =
     (case clear provider of
        None \<Rightarrow> []
      | Some (Many fns) \<Rightarrow> map (\<lambda>fn. Called fn [flag]) fns
      | Some (One fn) \<Rightarrow> [Called fn []])"

text \<open>\<^verbatim>\<open>if (callback) { callback(); }\<close> in the invocation \<open>i\<close>\<close>

definition callback_events :: "nat \<Rightarrow> hook option \<Rightarrow> event list" where
  "callback_events i cb = (case cb of Some fn \<Rightarrow> [Callback i fn] | None \<Rightarrow> [])"

text \<open>
  The closure \<^verbatim>\<open>clear\<close> of the invocation \<open>i\<close>: it counts the join counter down,
  and at zero merges the results of a flat query, calls the update hook when an update
  is due, and calls the callback.
\<close>

definition handleQueries_clear :: "env \<Rightarrow> nat \<Rightarrow> qstate \<Rightarrow> js_error + qstate" where
  "handleQueries_clear E i s =
     (let inv = invocations s ! i;
          n = semaphore inv - 1;
          s1 = s\<lparr>invocations := (invocations s)[i := inv\<lparr>semaphore := n\<rparr>]\<rparr>;
          f = faux inv;
          c = fauxInstances s1 ! f
      in if n = 0 then
           thenE
             (if truthy (query c) then
                thenE
                  (getMergedResult E (case props_results c of None \<Rightarrow> JUndefined | Some r \<Rightarrow> JObj r))
                  (\<lambda>merged. Inr (s1\<lparr>fauxInstances := (fauxInstances s1)[f := c\<lparr>props_result := merged\<rparr>]\<rparr>))
              else Inr s1)
             (\<lambda>s2.
                let c2 = fauxInstances s2 ! f;
                    s3 = (if truthy (doUpdate c2) then
                            (case update c2 of
                               Some u \<Rightarrow> s2\<lparr>log := log s2 @ [Called u []]\<rparr>
                             | None \<Rightarrow> s2)
                          else s2)
                in Inr (s3\<lparr>log := log s3 @ callback_events i (callback inv)\<rparr>))
         else Inr s1)"

text \<open>Running the closure \<^verbatim>\<open>resultHandler\<close> on a result.\<close>

definition run_resultHandler :: "env \<Rightarrow> resultHandler \<Rightarrow> jsval \<Rightarrow> qstate \<Rightarrow> js_error + qstate" where
  "run_resultHandler E h result s =
     (let i = h_inv h;
          key = h_key h;
          inv = invocations s ! i;
          f = faux inv;
          c = fauxInstances s ! f;
          previousResult = obj_get (previousResults inv) key;
          c1 = (if \<not> truthy (doUpdate c) \<and> \<not> shallowEqual E result previousResult
                then c\<lparr>doUpdate := JBool True\<rparr> else c)
      in case props_results c1 of
           None \<Rightarrow> Inl TypeError
         | Some results \<Rightarrow>
             (let c2 = c1\<lparr>props_results := Some (obj_put results key result)\<rparr>;
                  s1 = s\<lparr>fauxInstances := (fauxInstances s)[f := c2],
                         queryResults := obj_put (queryResults s) (h_resultKey h) result\<rparr>
              in thenE (handleQueries_clear E i s1)
                   (\<lambda>s2. case map_of (providers s2) key of
                            None \<Rightarrow> Inl TypeError
                          | Some provider \<Rightarrow>
                              Inr (s2\<lparr>log := log s2 @
                                     clear_hooks provider (doUpdate (fauxInstances s2 ! f))\<rparr>))))"

text \<open>\<^verbatim>\<open>while (resultHandlers.length) { resultHandlers.shift()(result); }\<close>\<close>

fun drain :: "env \<Rightarrow> resultHandler list \<Rightarrow> jsval \<Rightarrow> qstate \<Rightarrow> js_error + qstate" where
  "drain E [] result s = Inr s"
| "drain E (h # hs) result s = thenE (run_resultHandler E h result s) (drain E hs result)"

text \<open>
  The callback handed to \<^verbatim>\<open>handleQuery\<close>, for the array at address \<open>a\<close>, called with
  a result: it deletes the entry of its result key from \<^verbatim>\<open>activeQueries\<close> and drains
  its array.
\<close>

definition complete :: "env \<Rightarrow> nat \<Rightarrow> jsval \<Rightarrow> qstate \<Rightarrow> js_error + qstate" where
  "complete E a result s =
     (let resultKey = fst (resultHandlers s ! a);
          handlers = snd (resultHandlers s ! a);
          s1 = s\<lparr>activeQueries := obj_delete (activeQueries s) resultKey,
                 resultHandlers := (resultHandlers s)[a := (resultKey, [])],
                 in_flight := removeAll a (in_flight s)\<rparr>
      in drain E handlers result s1)"

text \<open>
  \<^verbatim>\<open>let options = queryOptions || queriesOptions[key] || {};\<close> The options object
  is one of the consumer's or a fresh one; what the loop body assigns to its
  \<^verbatim>\<open>select\<close> stays on the consumer's object.
\<close>

datatype options_source = FromQueryOptions | FromQueriesOptions | FreshOptions

definition choose_options :: "fauxInstance \<Rightarrow> string \<Rightarrow> (string \<times> jsval) list \<times> options_source" where
  "choose_options c key =
     (case queryOptions c of
        Some options \<Rightarrow> (options, FromQueryOptions)
      | None \<Rightarrow>
          (case map_of (queriesOptions c) key of
             Some options \<Rightarrow> (options, FromQueriesOptions)
           | None \<Rightarrow> ([], FreshOptions)))"

definition store_options ::
  "options_source \<Rightarrow> string \<Rightarrow> (string \<times> jsval) list \<Rightarrow> fauxInstance \<Rightarrow> fauxInstance" where
  "store_options src key options c =
     (case src of
        FromQueryOptions \<Rightarrow> c\<lparr>queryOptions := Some options\<rparr>
      | FromQueriesOptions \<Rightarrow> c\<lparr>queriesOptions := obj_put (queriesOptions c) key options\<rparr>
      | FreshOptions \<Rightarrow> c)"

text \<open>
  \<^verbatim>\<open>
    if (typeof options.select === 'undefined') { options.select = reducerKeys; }
    else if (!Array.isArray(options.select)) { options.select = [ options.select ]; }
  \<close>
\<close>

definition with_select :: "(string \<times> jsval) list \<Rightarrow> string list \<Rightarrow> (string \<times> jsval) list" where
  "with_select options keys =
     (if typeof (obj_get options ''select'') = ''undefined''
      then obj_put options ''select'' (JArr (map JStr keys))
      else if \<not> isArray (obj_get options ''select'')
      then obj_put options ''select'' (JArr [obj_get options ''select''])
      else options)"

text \<open>
  One round of the loop \<^verbatim>\<open>for (let key in queries)\<close> of the invocation \<open>i\<close>: a
  cached result is copied and counted; otherwise the wait hooks run and the result
  handler joins the pending array of its result key, or, when there is none, a new array
  is registered and the provider's query handler is called.
\<close>

definition handleQueries_body :: "env \<Rightarrow> nat \<Rightarrow> string \<Rightarrow> jsval \<Rightarrow> qstate \<Rightarrow> js_error + qstate" where
  "handleQueries_body E i key q s =
     (let f = faux (invocations s ! i);
          c = fauxInstances s ! f;
          options = fst (choose_options c key);
          resultKey = stringify E (JObj [(''query'', q), (''options'', JObj options)]);
          queryResult = obj_get (queryResults s) resultKey
      in if typeof queryResult \<noteq> ''undefined'' then
           (case props_results c of
              None \<Rightarrow> Inl TypeError
            | Some results \<Rightarrow>
                handleQueries_clear E i
                  (s\<lparr>fauxInstances := (fauxInstances s)
                        [f := c\<lparr>props_results := Some (obj_put results key queryResult)\<rparr>]\<rparr>))
         else
           (case map_of (providers s) key of
              None \<Rightarrow> Inl TypeError
            | Some provider \<Rightarrow>
                (let s1 = s\<lparr>log := log s @ wait_hooks provider\<rparr>;
                     resultHandler = ResultHandler i key resultKey
                 in case map_of (activeQueries s1) resultKey of
                      Some a \<Rightarrow>
                        Inr (s1\<lparr>resultHandlers := (resultHandlers s1)
                               [a := (fst (resultHandlers s1 ! a),
                                      snd (resultHandlers s1 ! a) @ [resultHandler])]\<rparr>)
                    | None \<Rightarrow>
                        (case getQueryHandler provider of
                           None \<Rightarrow> Inl TypeError
                         | Some (handler, keys) \<Rightarrow>
                             (let options' = with_select options keys;
                                  a = length (resultHandlers s1);
                                  s2 = s1\<lparr>fauxInstances := (fauxInstances s1)
                                            [f := store_options (snd (choose_options c key)) key options' c],
                                          resultHandlers := resultHandlers s1 @ [(resultKey, [resultHandler])],
                                          activeQueries := obj_put (activeQueries s1) resultKey a,
                                          log := log s1 @ [HandleQuery key q options' a]\<rparr>
                              in case handler q options' of
                                   Now result \<Rightarrow> complete E a result s2
                                 | Later \<Rightarrow> Inr (s2\<lparr>in_flight := in_flight s2 @ [a]\<rparr>))))))"

fun handleQueries_loop :: "env \<Rightarrow> nat \<Rightarrow> (string \<times> jsval) list \<Rightarrow> qstate \<Rightarrow> js_error + qstate" where
  "handleQueries_loop E i [] s = Inr s"
| "handleQueries_loop E i ((key, q) # rest) s =
     thenE (handleQueries_body E i key q s) (handleQueries_loop E i rest)"

text \<open>
  The start of \<^verbatim>\<open>handleQueries\<close> when there are queries \<open>qs\<close>: the variables
  of the invocation are set up, with the join counter at
  \<^verbatim>\<open>Object.keys(queries).length\<close>, and the consumer's result and results are reset.
\<close>

definition begin_invocation ::
  "nat \<Rightarrow> hook option \<Rightarrow> (string \<times> jsval) list \<Rightarrow> qstate \<Rightarrow> qstate" where
  "begin_invocation f cb qs s =
     (let c = fauxInstances s ! f;
          inv = \<lparr>faux = f, semaphore = int (length qs),
                 previousResults = (case props_results c of Some r \<Rightarrow> r | None \<Rightarrow> []),
                 callback = cb\<rparr>;
          c' = c\<lparr>props_result := (if truthy (props_query c) then JNull else props_result c),
                 props_results := Some []\<rparr>
      in s\<lparr>invocations := invocations s @ [inv],
            fauxInstances := (fauxInstances s)[f := c']\<rparr>)"

text \<open>
  \<^verbatim>\<open>handleQueries(fauxInstance, callback)\<close> for the consumer at address \<open>f\<close>. It
  returns \<^verbatim>\<open>false\<close> after calling the callback when there are no queries, and
  \<^verbatim>\<open>true\<close> after the loop otherwise.
\<close>

definition handleQueries :: "env \<Rightarrow> nat \<Rightarrow> hook option \<Rightarrow> qstate \<Rightarrow> js_error + bool \<times> qstate" where
  "handleQueries E f cb s =
     (case queries (fauxInstances s ! f) of
        None \<Rightarrow>
          Inr (False, case cb of Some fn \<Rightarrow> s\<lparr>log := log s @ [Called fn []]\<rparr> | None \<Rightarrow> s)
      | Some qs \<Rightarrow>
          thenE (handleQueries_loop E (length (invocations s)) qs (begin_invocation f cb qs s))
            (\<lambda>s2. Inr (True, s2)))"

text \<open>
  What happens to the executor from outside: a consumer calls \<^verbatim>\<open>handleQueries\<close>, or
  a replicator calls a callback it holds with a result. A replicator calls each callback
  once: a response is accepted for an address in flight only. A run ends when a step
  throws.
\<close>

datatype qevent = Invoke nat "hook option" | Respond nat jsval

definition qstep :: "env \<Rightarrow> qstate \<Rightarrow> qevent \<Rightarrow> qstate option" where
  "qstep E s ev =
     (case ev of
        Invoke f cb \<Rightarrow>
          (if f < length (fauxInstances s) then
             (case handleQueries E f cb s of Inl e \<Rightarrow> None | Inr (b, s') \<Rightarrow> Some s')
           else None)
      | Respond a result \<Rightarrow>
          (if a \<in> set (in_flight s) then
             (case complete E a result s of Inl e \<Rightarrow> None | Inr s' \<Rightarrow> Some s')
           else None))"

fun qrun :: "env \<Rightarrow> qstate \<Rightarrow> qevent list \<Rightarrow> qstate option" where
  "qrun E s [] = Some s"
| "qrun E s (ev # evs) = (case qstep E s ev of None \<Rightarrow> None | Some s' \<Rightarrow> qrun E s' evs)"

text \<open>The executor before anything has run.\<close>

definition qinit :: "(string \<times> provider) list \<Rightarrow> fauxInstance list \<Rightarrow> qstate" where
  "qinit ps cs =
     \<lparr>providers = ps, fauxInstances = cs, invocations = [], resultHandlers = [],
      activeQueries = [], queryResults = [], in_flight = [], log = []\<rparr>"

subsection \<open>Invariants of the executor\<close>

text \<open>The result handlers of the invocation \<open>i\<close> that wait in some array.\<close>

definition handler_count :: "qstate \<Rightarrow> nat \<Rightarrow> nat" where
  "handler_count s i =
     sum_list (map (\<lambda>p. length (filter (\<lambda>h. h_inv h = i) (snd p))) (resultHandlers s))"

text \<open>Every address held in the state is the address of an object.\<close>

definition refs_ok :: "qstate \<Rightarrow> bool" where
  "refs_ok s =
     ((\<forall>inv \<in> set (invocations s). faux inv < length (fauxInstances s)) \<and>
      (\<forall>p \<in> set (resultHandlers s). \<forall>h \<in> set (snd p). h_inv h < length (invocations s)) \<and>
      (\<forall>i cb. Callback i cb \<in> set (log s) \<longrightarrow> i < length (invocations s)))"

text \<open>
  The entries of \<^verbatim>\<open>activeQueries\<close> and the executions in flight correspond: an
  entry leads to the array of an execution in flight for its result key, and an
  execution in flight owns the entry of its result key.
\<close>

definition pending_ok :: "qstate \<Rightarrow> bool" where
  "pending_ok s =
     ((\<forall>p \<in> set (activeQueries s).
         snd p \<in> set (in_flight s) \<and> snd p < length (resultHandlers s) \<and>
         fst (resultHandlers s ! snd p) = fst p) \<and>
      (\<forall>a \<in> set (in_flight s).
         a < length (resultHandlers s) \<and>
         map_of (activeQueries s) (fst (resultHandlers s ! a)) = Some a) \<and>
      distinct (in_flight s))"

text \<open>
  The join counter of an invocation is the number of its result handlers that wait in
  an array, plus the \<open>owed\<close> decrements of the code that is running (the rounds of the
  loop still to come, the handlers of an array that is being drained); and the callback
  of an invocation with at least one query has been called once when the counter is at
  zero, and not at all before.
\<close>

definition counters_ok :: "qstate \<Rightarrow> (nat \<Rightarrow> nat) \<Rightarrow> bool" where
  "counters_ok s owed =
     (\<forall>i < length (invocations s).
        semaphore (invocations s ! i) = int (handler_count s i + owed i) \<and>
        (semaphore (invocations s ! i) = 0 \<or>
         queries (fauxInstances s ! faux (invocations s ! i)) \<noteq> Some []) \<and>
        (\<forall>cb. count_list (log s) (Callback i cb) =
           (if semaphore (invocations s ! i) = 0 \<and> callback (invocations s ! i) = Some cb \<and>
               queries (fauxInstances s ! faux (invocations s ! i)) \<noteq> Some []
            then 1 else 0)))"

definition qinv :: "qstate \<Rightarrow> (nat \<Rightarrow> nat) \<Rightarrow> bool" where
  "qinv s owed = (refs_ok s \<and> pending_ok s \<and> counters_ok s owed)"

text \<open>A list of events that are calls of opaque functions only.\<close>

definition called_only :: "event list \<Rightarrow> bool" where
  "called_only es = (\<forall>e \<in> set es. \<exists>h args. e = Called h args)"

text \<open>The result handlers of the invocation \<open>i\<close> in an array.\<close>

definition handlers_of :: "resultHandler list \<Rightarrow> nat \<Rightarrow> nat" where
  "handlers_of hs i = length (filter (\<lambda>h. h_inv h = i) hs)"

text \<open>
  The consumer of the invocation \<open>i\<close>, and the result key under which a consumer
  \<open>c\<close> issues the sub-query \<open>q\<close> of the provider \<open>key\<close>:
  \<^verbatim>\<open>JSON.stringify({ query, options })\<close>.
\<close>

abbreviation consumer_of :: "qstate \<Rightarrow> nat \<Rightarrow> fauxInstance" where
  "consumer_of s i \<equiv> fauxInstances s ! faux (invocations s ! i)"

definition resultKey_of :: "env \<Rightarrow> fauxInstance \<Rightarrow> string \<Rightarrow> jsval \<Rightarrow> string" where
  "resultKey_of E c key q =
     stringify E (JObj [(''query'', q), (''options'', JObj (fst (choose_options c key)))])"

text \<open>
  The state in which the cold path calls \<^verbatim>\<open>handleQuery\<close>: the wait hooks have
  run, the options have their \<^verbatim>\<open>select\<close>, and the new array with the result handler
  is registered under the result key.
\<close>

definition cold_state :: "env \<Rightarrow> nat \<Rightarrow> string \<Rightarrow> jsval \<Rightarrow> provider \<Rightarrow> string list \<Rightarrow> qstate \<Rightarrow> qstate" where
  "cold_state E i key q p keys s =
     (let f = faux (invocations s ! i);
          c = fauxInstances s ! f;
          options' = with_select (fst (choose_options c key)) keys;
          rk = resultKey_of E (consumer_of s i) key q
      in s\<lparr>fauxInstances := (fauxInstances s)[f := store_options (snd (choose_options c key)) key options' c],
            resultHandlers := resultHandlers s @ [(rk, [ResultHandler i key rk])],
            activeQueries := obj_put (activeQueries s) rk (length (resultHandlers s)),
            log := log s @ wait_hooks p @ [HandleQuery key q options' (length (resultHandlers s))]\<rparr>)"

text \<open>
  The consumer of the result handler \<open>h\<close> has the value \<open>v\<close> in its results, under
  the key of the handler.
\<close>

definition received :: "qstate \<Rightarrow> resultHandler \<Rightarrow> jsval \<Rightarrow> bool" where
  "received s h v =
     (case props_results (fauxInstances s ! faux (invocations s ! h_inv h)) of
        None \<Rightarrow> False
      | Some results \<Rightarrow> map_of results (h_key h) = Some v)"

section \<open>instantiateProvider\<close>

subsection \<open>Definitions, instances and callers\<close>

text \<open>
  A consumer context (\<^verbatim>\<open>fauxInstance\<close>) as \<^verbatim>\<open>instantiateProvider\<close> reads it: its
  props, the table \<^verbatim>\<open>getProviderInstances\<close> returns for it (the address of the
  table object, or \<open>None\<close> when the value is falsy), and its \<^verbatim>\<open>relevantProviders\<close>
  when it has such an object.
\<close>

record caller =
  props :: jsval
  providerInstances :: "nat option"
  relevantProviders :: "(string \<times> jsval) list option"

text \<open>The \<^verbatim>\<open>providerKey\<close> argument: a literal key, or a function of the caller.\<close>

datatype key_arg = Literal string | Computed "caller \<Rightarrow> string"

text \<open>
  The ready callbacks of an instance: the closure that sets the \<^verbatim>\<open>ready\<close> flag of
  the instance with the given address, an opaque callback, and the closure
  \<^verbatim>\<open>getResultInstances\<close> passes for the entry \<open>index\<close> of the gathering \<open>g\<close>.
\<close>

datatype ready_cb = SetReady nat | UserReady hook | Slot nat nat

text \<open>
  A listener subscribed to the store of a supplier instance: when the store changes it
  calls the handler with the supplier instance and each instance that the subscriber
  definition has at that time.
\<close>

datatype listener = Listener (l_handler: hook) (l_supplier: nat) (l_subscriber: string)

datatype middleware = ThunkMiddleware | UserMiddleware hook

text \<open>
  A provider definition with all the fields this file reads and writes. A definition is
  registered in \<^verbatim>\<open>providers\<close> under its key: \<^verbatim>\<open>provider.key\<close> is the key under
  which the table of definitions holds it, and a definition is referred to by that key.
  \<open>actions\<close> is \<^verbatim>\<open>Object.keys(provider.actions)\<close>; \<open>instances\<close> holds the
  addresses of the instances.
\<close>

record providerDefinition = provider +
  isGlobal :: bool
  hasThunk :: bool
  middleware :: "middleware list"
  subscribers :: "(string \<times> hook) list option"
  subscribeTo :: "(string \<times> hook) list option"
  instances :: "nat list option"
  onReady :: "hook one_or_many option"
  onInstantiated :: "hook one_or_many option"
  actions :: "string list"

text \<open>
  A provider instance, \<^verbatim>\<open>Object.create(provider)\<close>, with its own fields; \<open>proto\<close> is
  the key of its definition, to which every other read goes. \<open>own_onReady\<close> is its
  own \<^verbatim>\<open>onReady\<close> property once it has one. Its store is an object of the store
  collaborator; what this file uses of it are the listeners subscribed to it, whether
  it has an \<^verbatim>\<open>onReady\<close>, its \<^verbatim>\<open>initializedReplication\<close> flag, and whether the
  closure \<^verbatim>\<open>done\<close> has been handed to its \<^verbatim>\<open>onReady\<close> and not been called yet.
\<close>

record providerInstance =
  proto :: string
  providerKey :: string
  isStatic :: bool
  ready :: bool
  own_onReady :: "ready_cb list option"
  actionCreators :: "string list"
  listeners :: "listener list"
  store_onReady :: bool
  initializedReplication :: bool
  done_pending :: bool

text \<open>The variables one call of \<^verbatim>\<open>getResultInstances\<close> closes over.\<close>

record gathering =
  g_semaphore :: int
  resultInstances :: "nat option list"
  g_callback :: hook

text \<open>
  What is logged: the calls of wait hooks, of clear hooks (with the flag
  \<^verbatim>\<open>initialState !== store.getState()\<close> of the instance, which the store decides),
  of \<^verbatim>\<open>createProviderStore\<close> for an instance, of \<^verbatim>\<open>onInstantiated\<close> callbacks,
  of ready callbacks (with the instance and the value of its \<^verbatim>\<open>ready\<close> flag at the
  moment of the call), of subscription handlers (with the supplier and the subscriber
  instance), and of the callback of a gathering (with the address of the gathering and
  the array of instances).
\<close>

datatype pevent =
    Waited hook
  | Cleared hook nat
  | StoreCreated nat
  | Instantiated hook nat
  | ReadyCalled hook nat bool
  | Notified hook nat nat
  | Gathered nat hook "nat option list"

text \<open>
  The collaborators: what \<^verbatim>\<open>createProviderStore\<close> gives the store of an instance of
  a definition with a provider key (whether it has an \<^verbatim>\<open>onReady\<close>, and its
  \<^verbatim>\<open>initializedReplication\<close>), and \<^verbatim>\<open>getRelevantKeys(reducers, props)\<close>.
\<close>

record penv =
  createProviderStore :: "string \<Rightarrow> string \<Rightarrow> bool \<times> bool"
  getRelevantKeys :: "string list \<Rightarrow> jsval \<Rightarrow> string list"

text \<open>
  The state: the table of definitions (\<^verbatim>\<open>providers\<close>), the module's
  \<^verbatim>\<open>globalProviderInstances\<close>, the per-context tables of instances by address, the
  instances by address, the callers by address, the gatherings and the log.
\<close>

record pstate =
  definitions :: "(string \<times> providerDefinition) list"
  globalProviderInstances :: "(string \<times> nat) list"
  tables :: "(string \<times> nat) list list"
  objects :: "providerInstance list"
  callers :: "caller list"
  gatherings :: "gathering list"
  plog :: "pevent list"

text \<open>Changing the definition registered under a key.\<close>

definition update_definition ::
  "string \<Rightarrow> (providerDefinition \<Rightarrow> providerDefinition) \<Rightarrow> pstate \<Rightarrow> pstate" where
  "update_definition pk g s =
     s\<lparr>definitions := map (\<lambda>(k, d). if k = pk then (k, g d) else (k, d)) (definitions s)\<rparr>"

definition update_object ::
  "nat \<Rightarrow> (providerInstance \<Rightarrow> providerInstance) \<Rightarrow> pstate \<Rightarrow> pstate" where
  "update_object i g s = s\<lparr>objects := (objects s)[i := g (objects s ! i)]\<rparr>"

definition emit :: "pevent list \<Rightarrow> pstate \<Rightarrow> pstate" where
  "emit es s = s\<lparr>plog := plog s @ es\<rparr>"

text \<open>The instances of the definition registered under a key, none when it has no list yet.\<close>

definition instances_of :: "pstate \<Rightarrow> string \<Rightarrow> nat list" where
  "instances_of s k =
     (case map_of (definitions s) k of
        None \<Rightarrow> []
      | Some d \<Rightarrow> (case instances d of None \<Rightarrow> [] | Some xs \<Rightarrow> xs))"

subsection \<open>The ready queue\<close>

text \<open>
  \<^verbatim>\<open>providerInstance.onReady\<close> read as a list: the instance's own list, or else what
  its definition has.
\<close>

definition onReady_list :: "pstate \<Rightarrow> nat \<Rightarrow> ready_cb list" where
  "onReady_list s i =
     (case own_onReady (objects s ! i) of
        Some cbs \<Rightarrow> cbs
      | None \<Rightarrow>
          (case map_of (definitions s) (proto (objects s ! i)) of
             None \<Rightarrow> []
           | Some d \<Rightarrow> (case onReady d of None \<Rightarrow> [] | Some x \<Rightarrow> map UserReady (as_array x))))"

text \<open>
  Modelled from the spec: \<^verbatim>\<open>pushOnReady\<close> and \<^verbatim>\<open>unshiftOnReady\<close> are imported
  from \<^verbatim>\<open>./keyConcats\<close>, which is not among the sources. The spec (4.5): each instance
  holds an ordered ready-callback list (or a single callback) supporting insert-at-front
  (internal flag-setter, must run first) and insert-at-back (user callbacks).
\<close>

definition pushOnReady :: "nat \<Rightarrow> ready_cb \<Rightarrow> pstate \<Rightarrow> pstate" where
  "pushOnReady i cb s = update_object i (\<lambda>obj. obj\<lparr>own_onReady := Some (onReady_list s i @ [cb])\<rparr>) s"

definition unshiftOnReady :: "nat \<Rightarrow> ready_cb \<Rightarrow> pstate \<Rightarrow> pstate" where
  "unshiftOnReady i cb s = update_object i (\<lambda>obj. obj\<lparr>own_onReady := Some (cb # onReady_list s i)\<rparr>) s"

text \<open>
  Modelled from the spec: \<^verbatim>\<open>unshiftMiddleware\<close> of \<^verbatim>\<open>./keyConcats\<close>, which puts
  the interceptor for thunks at the front of the middleware of the definition.
\<close>

definition unshiftMiddleware :: "middleware \<Rightarrow> providerDefinition \<Rightarrow> providerDefinition" where
  "unshiftMiddleware m d = d\<lparr>middleware := m # middleware d\<rparr>"

text \<open>\<^verbatim>\<open>array[index] = value\<close>; an assignment past the end extends the array.\<close>

definition array_set :: "nat option list \<Rightarrow> nat \<Rightarrow> nat option \<Rightarrow> nat option list" where
  "array_set xs i v =
     (if i < length xs then xs[i := v] else xs @ replicate (i - length xs) None @ [v])"

text \<open>
  The closure \<^verbatim>\<open>clear\<close> of the gathering \<open>g\<close>:
  \<^verbatim>\<open>if (--semaphore === 0) { callback(resultInstances); }\<close>
\<close>

definition getResultInstances_clear :: "nat \<Rightarrow> pstate \<Rightarrow> pstate" where
  "getResultInstances_clear g s =
     (let ga = gatherings s ! g;
          n = g_semaphore ga - 1;
          s1 = s\<lparr>gatherings := (gatherings s)[g := ga\<lparr>g_semaphore := n\<rparr>]\<rparr>
      in if n = 0 then emit [Gathered g (g_callback ga) (resultInstances ga)] s1 else s1)"

text \<open>Calling a ready callback with the instance \<open>i\<close>.\<close>

fun call_ready :: "nat \<Rightarrow> ready_cb \<Rightarrow> pstate \<Rightarrow> pstate" where
  "call_ready i (SetReady j) s = update_object j (\<lambda>obj. obj\<lparr>ready := True\<rparr>) s"
| "call_ready i (UserReady fn) s = emit [ReadyCalled fn i (ready (objects s ! i))] s"
| "call_ready i (Slot g index) s =
     getResultInstances_clear g
       (s\<lparr>gatherings := (gatherings s)
            [g := (gatherings s ! g)\<lparr>resultInstances := array_set (resultInstances (gatherings s ! g)) index (Some i)\<rparr>]\<rparr>)"

text \<open>\<^verbatim>\<open>x.forEach(fn => ...)\<close> on a hook field after \<^verbatim>\<open>if (x)\<close>: it has to be an array.\<close>

definition hooks_forEach :: "hook one_or_many option \<Rightarrow> (hook \<Rightarrow> pevent) \<Rightarrow> js_error + pevent list" where
  "hooks_forEach x ev =
     (case x of
        None \<Rightarrow> Inr []
      | Some (Many fns) \<Rightarrow> Inr (map ev fns)
      | Some (One fn) \<Rightarrow> Inl TypeError)"

text \<open>
  A hook field that is called as an array when it is one and as a function otherwise, as
  \<^verbatim>\<open>onInstantiated\<close> is.
\<close>

definition hooks_each :: "hook one_or_many option \<Rightarrow> (hook \<Rightarrow> pevent) \<Rightarrow> pevent list" where
  "hooks_each x ev = (case x of None \<Rightarrow> [] | Some y \<Rightarrow> map ev (as_array y))"

text \<open>
  The closure \<^verbatim>\<open>done\<close> of the instance \<open>i\<close>: it calls the ready callbacks in the
  order of the list, then the clear hooks of the definition.
\<close>

definition instance_done :: "nat \<Rightarrow> pstate \<Rightarrow> js_error + pstate" where
  "instance_done i s =
     (case map_of (definitions s) (proto (objects s ! i)) of
        None \<Rightarrow> Inl TypeError
      | Some d \<Rightarrow>
          thenE
            (case own_onReady (objects s ! i) of
               Some cbs \<Rightarrow> Inr cbs
             | None \<Rightarrow>
                 (case onReady d of
                    Some (Many fns) \<Rightarrow> Inr (map UserReady fns)
                  | Some (One fn) \<Rightarrow> Inr [UserReady fn]
                  | None \<Rightarrow> Inl TypeError))
            (\<lambda>cbs. let s1 = fold (call_ready i) cbs s
                   in thenE (hooks_forEach (clear d) (\<lambda>fn. Cleared fn i))
                        (\<lambda>es. Inr (emit es s1))))"

subsection \<open>The subscription graph\<close>

text \<open>
  \<^verbatim>\<open>callHandler\<close>, and the replay in the \<^verbatim>\<open>subscribeTo\<close> loop: the handler is called
  for the pairs of the given supplier and subscriber instances.
\<close>

definition notify_all :: "hook \<Rightarrow> nat list \<Rightarrow> nat list \<Rightarrow> pevent list" where
  "notify_all handler xs ys = concat (map (\<lambda>x. map (\<lambda>y. Notified handler x y) ys) xs)"

text \<open>
  One round of \<^verbatim>\<open>Object.keys(provider.subscribers).forEach\<close> for the new instance
  \<open>i\<close> of the definition \<open>pk\<close>: the edge is mirrored onto the subscriber definition
  unless it has one, a listener is subscribed to the store of the instance, and the
  handler is called for the instances the subscriber definition has.
\<close>

definition subscribers_round :: "string \<Rightarrow> nat \<Rightarrow> string \<Rightarrow> pstate \<Rightarrow> js_error + pstate" where
  "subscribers_round pk i key s =
     (case map_of (definitions s) pk of
        None \<Rightarrow> Inl TypeError
      | Some provider \<Rightarrow>
          (case map_of (case subscribers provider of None \<Rightarrow> [] | Some subs \<Rightarrow> subs) key of
             None \<Rightarrow> Inl TypeError
           | Some handler \<Rightarrow>
               (case map_of (definitions s) key of
                  None \<Rightarrow> Inl TypeError
                | Some subProvider \<Rightarrow>
                    (let edges = (case subscribeTo subProvider of None \<Rightarrow> [] | Some x \<Rightarrow> x);
                         edges' = (if map_of edges pk = None then obj_put edges pk handler else edges);
                         s1 = update_definition key (\<lambda>d. d\<lparr>subscribeTo := Some edges'\<rparr>) s;
                         s2 = update_object i (\<lambda>obj. obj\<lparr>listeners := listeners obj @ [Listener handler i key]\<rparr>) s1
                     in Inr (emit (notify_all handler [i] (instances_of s2 key)) s2)))))"

fun subscribers_loop :: "string \<Rightarrow> nat \<Rightarrow> string list \<Rightarrow> pstate \<Rightarrow> js_error + pstate" where
  "subscribers_loop pk i [] s = Inr s"
| "subscribers_loop pk i (key # keys) s =
     thenE (subscribers_round pk i key s) (subscribers_loop pk i keys)"

text \<open>Subscribing the listener of an edge to the stores of the given supplier instances.\<close>

fun subscribe_all :: "hook \<Rightarrow> string \<Rightarrow> nat list \<Rightarrow> pstate \<Rightarrow> pstate" where
  "subscribe_all handler pk [] s = s"
| "subscribe_all handler pk (x # xs) s =
     subscribe_all handler pk xs
       (update_object x (\<lambda>obj. obj\<lparr>listeners := listeners obj @ [Listener handler x pk]\<rparr>) s)"

text \<open>
  One round of \<^verbatim>\<open>Object.keys(provider.subscribeTo).forEach\<close> for the new instance
  \<open>i\<close> of the definition \<open>pk\<close>: unless the supplier definition has the edge, it gets it
  and every instance it has gets a listener; then the handler is called for every
  supplier instance with the new instance.
\<close>

definition subscribeTo_round :: "string \<Rightarrow> nat \<Rightarrow> string \<Rightarrow> pstate \<Rightarrow> js_error + pstate" where
  "subscribeTo_round pk i key s =
     (case map_of (definitions s) pk of
        None \<Rightarrow> Inl TypeError
      | Some provider \<Rightarrow>
          (case map_of (case subscribeTo provider of None \<Rightarrow> [] | Some x \<Rightarrow> x) key of
             None \<Rightarrow> Inl TypeError
           | Some handler \<Rightarrow>
               (case map_of (definitions s) key of
                  None \<Rightarrow> Inl TypeError
                | Some supProvider \<Rightarrow>
                    (let subs = (case subscribers supProvider of None \<Rightarrow> [] | Some x \<Rightarrow> x);
                         suppliers = (case instances supProvider of None \<Rightarrow> [] | Some xs \<Rightarrow> xs);
                         s1 = (if map_of subs pk = None
                               then subscribe_all handler pk suppliers
                                      (update_definition key
                                         (\<lambda>d. d\<lparr>subscribers := Some (obj_put subs pk handler)\<rparr>) s)
                               else update_definition key (\<lambda>d. d\<lparr>subscribers := Some subs\<rparr>) s)
                     in Inr (emit (notify_all handler suppliers [i]) s1)))))"

fun subscribeTo_loop :: "string \<Rightarrow> nat \<Rightarrow> string list \<Rightarrow> pstate \<Rightarrow> js_error + pstate" where
  "subscribeTo_loop pk i [] s = Inr s"
| "subscribeTo_loop pk i (key # keys) s =
     thenE (subscribeTo_round pk i key s) (subscribeTo_loop pk i keys)"

subsection \<open>instantiateProvider\<close>

text \<open>
  The resolved provider key and the static flag. With fewer than four arguments
  (\<open>None\<close>) the key is the definition's own; a key function is called with the caller,
  and its result is static when it is the definition's key.
\<close>

definition resolve_key :: "string \<Rightarrow> key_arg option \<Rightarrow> caller \<Rightarrow> string \<times> bool" where
  "resolve_key pk karg c =
     (case karg of
        None \<Rightarrow> (pk, True)
      | Some (Literal k) \<Rightarrow> (k, True)
      | Some (Computed fn) \<Rightarrow> (fn c, fn c = pk))"

text \<open>
  \<^verbatim>\<open>
    providerInstance = provider.isGlobal
      ? globalProviderInstances[providerKey]
      : providerInstances && providerInstances[providerKey];
  \<close>
\<close>

definition lookup_instance :: "pstate \<Rightarrow> providerDefinition \<Rightarrow> caller \<Rightarrow> string \<Rightarrow> nat option" where
  "lookup_instance s provider c k =
     (if isGlobal provider then map_of (globalProviderInstances s) k
      else (case providerInstances c of
              None \<Rightarrow> None
            | Some t \<Rightarrow> map_of (tables s ! t) k))"

text \<open>
  \<^verbatim>\<open>if (fauxInstance.relevantProviders) { fauxInstance.relevantProviders[providerKey] = true; }\<close>
\<close>

definition mark_relevant :: "nat \<Rightarrow> string \<Rightarrow> pstate \<Rightarrow> pstate" where
  "mark_relevant f k s =
     (case relevantProviders (callers s ! f) of
        None \<Rightarrow> s
      | Some r \<Rightarrow>
          s\<lparr>callers := (callers s)
               [f := (callers s ! f)\<lparr>relevantProviders := Some (obj_put r k (JBool True))\<rparr>]\<rparr>)"

text \<open>
  The branch \<^verbatim>\<open>if (providerInstance)\<close>: the ready callback is called at once when
  the instance is ready and put at the back of its list otherwise.
\<close>

definition found_instance :: "nat \<Rightarrow> ready_cb option \<Rightarrow> pstate \<Rightarrow> pstate" where
  "found_instance i readyCallback s =
     (case readyCallback of
        None \<Rightarrow> s
      | Some cb \<Rightarrow> if ready (objects s ! i) then call_ready i cb s else pushOnReady i cb s)"

text \<open>
  The branch \<^verbatim>\<open>if (!provider.hasThunk)\<close>, as far as it changes the definition: the
  flag is set, single wait and clear hooks are put into arrays, and the interceptor for
  thunks is installed.
\<close>

definition install_thunk :: "providerDefinition \<Rightarrow> providerDefinition" where
  "install_thunk d =
     (if hasThunk d then d
      else unshiftMiddleware ThunkMiddleware
             (d\<lparr>hasThunk := True,
                wait := (case wait d of Some (One fn) \<Rightarrow> Some (Many [fn]) | w \<Rightarrow> w),
                clear := (case clear d of Some (One fn) \<Rightarrow> Some (Many [fn]) | w \<Rightarrow> w)\<rparr>))"

text \<open>
  The new instance of the definition \<open>provider\<close>, registered under \<open>pk\<close>, with its
  store, registered in the tables and in the instances of its definition (from \<^verbatim>\<open>Object.create(provider)\<close> to
  \<^verbatim>\<open>provider.instances.push(providerInstance)\<close>).
\<close>

definition create_instance ::
  "penv \<Rightarrow> nat \<Rightarrow> string \<Rightarrow> providerDefinition \<Rightarrow> string \<Rightarrow> bool \<Rightarrow> pstate \<Rightarrow> pstate" where
  "create_instance P f pk provider k static s =
     (let i = length (objects s);
          obj = \<lparr>proto = pk, providerKey = k, isStatic = static, ready = False,
                 own_onReady = None, actionCreators = actions provider, listeners = [],
                 store_onReady = fst (createProviderStore P pk k),
                 initializedReplication = snd (createProviderStore P pk k),
                 done_pending = False\<rparr>;
          s1 = emit [StoreCreated i] (s\<lparr>objects := objects s @ [obj]\<rparr>);
          s2 = (if isGlobal provider
                then s1\<lparr>globalProviderInstances := obj_put (globalProviderInstances s1) k i\<rparr>
                else s1);
          s3 = (case providerInstances (callers s2 ! f) of
                  None \<Rightarrow> s2
                | Some t \<Rightarrow> s2\<lparr>tables := (tables s2)[t := obj_put (tables s2 ! t) k i]\<rparr>)
      in update_definition pk
           (\<lambda>d. d\<lparr>instances := Some ((case instances d of None \<Rightarrow> [] | Some xs \<Rightarrow> xs) @ [i])\<rparr>) s3)"

text \<open>
  The end of \<^verbatim>\<open>instantiateProvider\<close>: the closure \<^verbatim>\<open>done\<close> is handed to the
  store's \<^verbatim>\<open>onReady\<close> when the definition has a replication, the store has an
  \<^verbatim>\<open>onReady\<close> and has not initialized its replication; otherwise it is called.
\<close>

definition finish_instance :: "string \<Rightarrow> nat \<Rightarrow> pstate \<Rightarrow> js_error + pstate" where
  "finish_instance pk i s =
     (case map_of (definitions s) pk of
        None \<Rightarrow> Inl TypeError
      | Some provider \<Rightarrow>
          if replication provider \<noteq> None \<and> store_onReady (objects s ! i) \<and>
             \<not> initializedReplication (objects s ! i)
          then Inr (update_object i (\<lambda>obj. obj\<lparr>done_pending := True\<rparr>) s)
          else instance_done i s)"

text \<open>
  The two loops that wire the new instance \<open>i\<close> of the definition \<open>pk\<close> into the
  subscription graph; each runs over the keys its object has when the loop starts.
\<close>

definition subscription_keys :: "(string \<times> hook) list option \<Rightarrow> string list" where
  "subscription_keys edges = (case edges of None \<Rightarrow> [] | Some x \<Rightarrow> map fst x)"

definition wire_instance :: "string \<Rightarrow> nat \<Rightarrow> pstate \<Rightarrow> js_error + pstate" where
  "wire_instance pk i s =
     (case map_of (definitions s) pk of
        None \<Rightarrow> Inl TypeError
      | Some provider \<Rightarrow>
          thenE (subscribers_loop pk i (subscription_keys (subscribers provider)) s)
            (\<lambda>s'. case map_of (definitions s') pk of
                     None \<Rightarrow> Inl TypeError
                   | Some provider' \<Rightarrow>
                       subscribeTo_loop pk i (subscription_keys (subscribeTo provider')) s'))"

text \<open>
  From the \<^verbatim>\<open>onInstantiated\<close> callbacks to the end: the flag setter is put at the
  front of the ready callbacks, the caller's callback at the back, and the instance is
  finished or left to the store.
\<close>

definition ready_sequence :: "string \<Rightarrow> nat \<Rightarrow> ready_cb option \<Rightarrow> pstate \<Rightarrow> js_error + pstate" where
  "ready_sequence pk i readyCallback s =
     (case map_of (definitions s) pk of
        None \<Rightarrow> Inl TypeError
      | Some provider \<Rightarrow>
          (let s1 = emit (hooks_each (onInstantiated provider) (\<lambda>fn. Instantiated fn i)) s;
               s2 = unshiftOnReady i (SetReady i) s1;
               s3 = (case readyCallback of None \<Rightarrow> s2 | Some cb \<Rightarrow> pushOnReady i cb s2)
           in finish_instance pk i s3))"

text \<open>The part of \<^verbatim>\<open>instantiateProvider\<close> that makes a new instance.\<close>

definition new_instance ::
  "penv \<Rightarrow> nat \<Rightarrow> string \<Rightarrow> string \<Rightarrow> bool \<Rightarrow> ready_cb option \<Rightarrow> pstate \<Rightarrow> js_error + nat \<times> pstate" where
  "new_instance P f pk k static readyCallback s =
     (let s1 = update_definition pk install_thunk s;
          i = length (objects s1)
      in case map_of (definitions s1) pk of
           None \<Rightarrow> Inl TypeError
         | Some provider \<Rightarrow>
             thenE (hooks_forEach (wait provider) Waited)
               (\<lambda>es. thenE (wire_instance pk i (create_instance P f pk provider k static (emit es s1)))
                  (\<lambda>s2. thenE (ready_sequence pk i readyCallback s2)
                     (\<lambda>s3. Inr (i, s3)))))"

text \<open>
  \<^verbatim>\<open>instantiateProvider(fauxInstance, provider, providerKey, readyCallback)\<close> for the
  caller at address \<open>f\<close> and the definition registered under \<open>pk\<close>; \<open>karg\<close> is
  \<open>None\<close> when the call has fewer than four arguments. It returns the address of the
  instance.
\<close>

definition instantiateProvider ::
  "penv \<Rightarrow> nat \<Rightarrow> string \<Rightarrow> key_arg option \<Rightarrow> ready_cb option \<Rightarrow> pstate \<Rightarrow> js_error + nat \<times> pstate" where
  "instantiateProvider P f pk karg readyCallback s =
     (case map_of (definitions s) pk of
        None \<Rightarrow> Inl TypeError
      | Some provider \<Rightarrow>
          (let k = fst (resolve_key pk karg (callers s ! f));
               static = snd (resolve_key pk karg (callers s ! f));
               s0 = mark_relevant f k s
           in case lookup_instance s provider (callers s ! f) k of
                Some i \<Rightarrow> Inr (i, found_instance i readyCallback s0)
              | None \<Rightarrow> new_instance P f pk k static readyCallback s0))"

subsection \<open>getResultInstances\<close>

text \<open>
  \<^verbatim>\<open>findProvider(props)\<close> in the closure of the definition \<open>pk\<close>: the definition
  itself when it is relevant for the props, else the first relevant one in the order of
  \<^verbatim>\<open>for (let key in providers)\<close>, else the definition itself.
\<close>

definition findProvider :: "penv \<Rightarrow> string \<Rightarrow> jsval \<Rightarrow> pstate \<Rightarrow> string" where
  "findProvider P pk resultProps s =
     (if (case map_of (definitions s) pk of
            None \<Rightarrow> False
          | Some provider \<Rightarrow> getRelevantKeys P (reducers provider) resultProps \<noteq> [])
      then pk
      else (case filter (\<lambda>p. getRelevantKeys P (reducers (snd p)) resultProps \<noteq> []) (definitions s) of
              [] \<Rightarrow> pk
            | p # ps \<Rightarrow> fst p))"

text \<open>
  What \<^verbatim>\<open>getProviderInstances\<close> finds for a new \<^verbatim>\<open>{ props, context }\<close>: a table
  of the context, a falsy value, or nothing, in which case the new caller gets an empty
  table of its own.
\<close>

datatype context_table = SharedTable nat | NoTable | OwnTable

definition new_caller :: "jsval \<Rightarrow> context_table \<Rightarrow> pstate \<Rightarrow> nat \<times> pstate" where
  "new_caller resultProps ctx s =
     (case ctx of
        SharedTable t \<Rightarrow>
          (length (callers s),
           s\<lparr>callers := callers s @
                [\<lparr>props = resultProps, providerInstances = Some t, relevantProviders = None\<rparr>]\<rparr>)
      | NoTable \<Rightarrow>
          (length (callers s),
           s\<lparr>callers := callers s @
                [\<lparr>props = resultProps, providerInstances = None, relevantProviders = None\<rparr>]\<rparr>)
      | OwnTable \<Rightarrow>
          (length (callers s),
           s\<lparr>callers := callers s @
                [\<lparr>props = resultProps, providerInstances = Some (length (tables s)),
                  relevantProviders = None\<rparr>],
              tables := tables s @ [[]]\<rparr>))"

text \<open>
  \<^verbatim>\<open>result.forEach((resultProps, index) => ...)\<close> of the gathering \<open>g\<close>: the entry is
  set to \<^verbatim>\<open>null\<close> and the provider found for the props is instantiated, with the
  closure for the entry as its ready callback.
\<close>

fun getResultInstances_loop ::
  "penv \<Rightarrow> string \<Rightarrow> context_table \<Rightarrow> nat \<Rightarrow> nat \<Rightarrow> jsval list \<Rightarrow> pstate \<Rightarrow> js_error + pstate" where
  "getResultInstances_loop P pk ctx g index [] s = Inr s"
| "getResultInstances_loop P pk ctx g index (resultProps # rest) s =
     (let s1 = s\<lparr>gatherings := (gatherings s)
                  [g := (gatherings s ! g)
                     \<lparr>resultInstances := array_set (resultInstances (gatherings s ! g)) index None\<rparr>]\<rparr>;
          f = fst (new_caller resultProps ctx s1);
          s2 = snd (new_caller resultProps ctx s1)
      in thenE (instantiateProvider P f (findProvider P pk resultProps s2) None (Some (Slot g index)) s2)
           (\<lambda>r. getResultInstances_loop P pk ctx g (Suc index) rest (snd r)))"

text \<open>
  \<^verbatim>\<open>getResultInstances(result, callback)\<close> in the closure of the definition \<open>pk\<close>;
  \<open>result\<close> is \<open>None\<close> when it is not an array. The join counter starts at the length
  of the result; without entries it is set to 1 and counted down at once.
\<close>

definition getResultInstances ::
  "penv \<Rightarrow> string \<Rightarrow> context_table \<Rightarrow> jsval list option \<Rightarrow> hook \<Rightarrow> pstate \<Rightarrow> js_error + pstate" where
  "getResultInstances P pk ctx result cb s =
     (let g = length (gatherings s);
          n = (case result of None \<Rightarrow> 0 | Some xs \<Rightarrow> length xs);
          s1 = s\<lparr>gatherings := gatherings s @
                  [\<lparr>g_semaphore = int n, resultInstances = [], g_callback = cb\<rparr>]\<rparr>
      in if n = 0 then
           Inr (getResultInstances_clear g
                  (s1\<lparr>gatherings := (gatherings s1)[g := (gatherings s1 ! g)\<lparr>g_semaphore := 1\<rparr>]\<rparr>))
         else getResultInstances_loop P pk ctx g 0 (case result of None \<Rightarrow> [] | Some xs \<Rightarrow> xs) s1)"

subsection \<open>What the stores do, and runs\<close>

text \<open>
  A change of the store of the instance \<open>i\<close>: its listeners are called in the order of
  their subscription.
\<close>

definition run_listener :: "pstate \<Rightarrow> listener \<Rightarrow> pevent list" where
  "run_listener s l = notify_all (l_handler l) [l_supplier l] (instances_of s (l_subscriber l))"

definition store_changed :: "nat \<Rightarrow> pstate \<Rightarrow> pstate" where
  "store_changed i s = emit (concat (map (run_listener s) (listeners (objects s ! i)))) s"

text \<open>The store of the instance \<open>i\<close> calls the closure \<^verbatim>\<open>done\<close> it was handed.\<close>

definition store_ready :: "nat \<Rightarrow> pstate \<Rightarrow> js_error + pstate" where
  "store_ready i s = instance_done i (update_object i (\<lambda>obj. obj\<lparr>done_pending := False\<rparr>) s)"

text \<open>
  What happens from outside: a call of \<^verbatim>\<open>instantiateProvider\<close> by an existing
  caller with an opaque ready callback or none, a call of \<^verbatim>\<open>getResultInstances\<close>, a
  store that becomes ready (once: for an instance whose \<^verbatim>\<open>done\<close> it holds), and a
  store that changes. A run ends when a step throws.
\<close>

datatype pcall =
    Instantiate nat string "key_arg option" "hook option"
  | GetResultInstances string context_table "jsval list option" hook
  | StoreReady nat
  | StoreChanged nat

definition pstep :: "penv \<Rightarrow> pstate \<Rightarrow> pcall \<Rightarrow> pstate option" where
  "pstep P s c =
     (case c of
        Instantiate f pk karg cb \<Rightarrow>
          (if f < length (callers s) then
             (case instantiateProvider P f pk karg (map_option UserReady cb) s of
                Inl e \<Rightarrow> None
              | Inr r \<Rightarrow> Some (snd r))
           else None)
      | GetResultInstances pk ctx result cb \<Rightarrow>
          (case getResultInstances P pk ctx result cb s of Inl e \<Rightarrow> None | Inr s' \<Rightarrow> Some s')
      | StoreReady i \<Rightarrow>
          (if i < length (objects s) \<and> done_pending (objects s ! i) then
             (case store_ready i s of Inl e \<Rightarrow> None | Inr s' \<Rightarrow> Some s')
           else None)
      | StoreChanged i \<Rightarrow>
          (if i < length (objects s) then Some (store_changed i s) else None))"

fun prun :: "penv \<Rightarrow> pstate \<Rightarrow> pcall list \<Rightarrow> pstate option" where
  "prun P s [] = Some s"
| "prun P s (c # cs) = (case pstep P s c of None \<Rightarrow> None | Some s' \<Rightarrow> prun P s' cs)"

text \<open>
  The state before any instance exists: definitions without instances, empty tables,
  callers of these tables.
\<close>

definition pinit :: "(string \<times> providerDefinition) list \<Rightarrow> nat \<Rightarrow> caller list \<Rightarrow> pstate" where
  "pinit ds n cs =
     \<lparr>definitions = map (\<lambda>(k, d). (k, d\<lparr>instances := None\<rparr>)) ds,
      globalProviderInstances = [], tables = replicate n [], objects = [],
      callers = cs, gatherings = [], plog = []\<rparr>"

subsection \<open>What the phases of instantiateProvider leave alone\<close>

text \<open>The events of a creation: a wait hook is called, a store is made.\<close>

fun creation :: "pevent \<Rightarrow> bool" where
  "creation (Waited h) = True"
| "creation (StoreCreated i) = True"
| "creation e = False"

text \<open>
  An instance without what the ready sequence writes (its \<^verbatim>\<open>ready\<close> flag, its
  ready callbacks, the closure handed to the store), and the relation of two states that
  differ in these fields, the gatherings and the log only, with the same events of
  creation in the log.
\<close>

definition unready :: "providerInstance \<Rightarrow> providerInstance" where
  "unready obj = obj\<lparr>ready := False, own_onReady := None, done_pending := False\<rparr>"

definition ready_frame :: "pstate \<Rightarrow> pstate \<Rightarrow> bool" where
  "ready_frame s s' =
     (definitions s' = definitions s \<and> globalProviderInstances s' = globalProviderInstances s \<and>
      tables s' = tables s \<and> callers s' = callers s \<and>
      map unready (objects s') = map unready (objects s) \<and>
      filter creation (plog s') = filter creation (plog s))"

text \<open>
  An instance without its listeners, a definition without its edges, and the relation
  of two states that differ in listeners and edges only and whose log differs by calls
  of subscription handlers.
\<close>

definition unwired :: "providerInstance \<Rightarrow> providerInstance" where
  "unwired obj = obj\<lparr>listeners := []\<rparr>"

definition unwired_definition :: "string \<times> providerDefinition \<Rightarrow> string \<times> providerDefinition" where
  "unwired_definition p = (fst p, (snd p)\<lparr>subscribers := None, subscribeTo := None\<rparr>)"

definition notified_only :: "pevent list \<Rightarrow> bool" where
  "notified_only es = (\<forall>e \<in> set es. \<exists>h x y. e = Notified h x y)"

definition wire_frame :: "pstate \<Rightarrow> pstate \<Rightarrow> bool" where
  "wire_frame s s' =
     (globalProviderInstances s' = globalProviderInstances s \<and> tables s' = tables s \<and>
      callers s' = callers s \<and> gatherings s' = gatherings s \<and>
      map unwired (objects s') = map unwired (objects s) \<and>
      map unwired_definition (definitions s') = map unwired_definition (definitions s) \<and>
      (\<exists>es. plog s' = plog s @ es \<and> notified_only es))"

subsection \<open>Repeated calls\<close>

text \<open>
  Successive calls of \<^verbatim>\<open>instantiateProvider\<close> for the definition \<open>pk\<close>, each
  with its caller, key argument and ready callback; the result is the list of the
  instances returned.
\<close>

fun instantiate_each ::
  "penv \<Rightarrow> string \<Rightarrow> (nat \<times> key_arg option \<times> ready_cb option) list \<Rightarrow> pstate \<Rightarrow>
   js_error + nat list \<times> pstate" where
  "instantiate_each P pk [] s = Inr ([], s)"
| "instantiate_each P pk (c # calls) s =
     thenE (instantiateProvider P (fst c) pk (fst (snd c)) (snd (snd c)) s)
       (\<lambda>r. thenE (instantiate_each P pk calls (snd r))
          (\<lambda>rs. Inr (fst r # fst rs, snd rs)))"

text \<open>
  The names of the members every object inherits from \<^verbatim>\<open>Object.prototype\<close>; a
  read \<^verbatim>\<open>table[key]\<close> with one of them as key finds the inherited member, which
  the lookup among own properties does not model.
\<close>

definition object_prototype_members :: "string list" where
  "object_prototype_members =
     [''constructor'', ''__proto__'', ''hasOwnProperty'', ''isPrototypeOf'',
      ''propertyIsEnumerable'', ''toLocaleString'', ''toString'', ''valueOf'',
      ''__defineGetter__'', ''__defineSetter__'', ''__lookupGetter__'', ''__lookupSetter__'']"

text \<open>
  A caller without its marks of relevant providers; a definition's key with its
  \<^verbatim>\<open>isGlobal\<close> flag; and the relation of two states with the same definitions,
  tables, number of instances and events of creation, whose callers differ in their
  marks only.
\<close>

definition unmarked :: "caller \<Rightarrow> caller" where
  "unmarked c = c\<lparr>relevantProviders := None\<rparr>"

definition global_flag :: "string \<times> providerDefinition \<Rightarrow> string \<times> bool" where
  "global_flag p = (fst p, isGlobal (snd p))"

definition dedup_frame :: "pstate \<Rightarrow> pstate \<Rightarrow> bool" where
  "dedup_frame s s' =
     (definitions s' = definitions s \<and> globalProviderInstances s' = globalProviderInstances s \<and>
      tables s' = tables s \<and> length (objects s') = length (objects s) \<and>
      map unmarked (callers s') = map unmarked (callers s) \<and>
      filter creation (plog s') = filter creation (plog s))"

text \<open>Where a call for the definition, the key and the caller looks, the instance is.\<close>

definition registered :: "pstate \<Rightarrow> string \<Rightarrow> string \<Rightarrow> nat \<Rightarrow> nat \<Rightarrow> bool" where
  "registered s pk k f i =
     (case map_of (definitions s) pk of
        None \<Rightarrow> False
      | Some provider \<Rightarrow> lookup_instance s provider (callers s ! f) k = Some i)"

section \<open>Concrete collaborators, providers and consumers for the examples\<close>

text \<open>
  A rendering of values in the manner of \<^verbatim>\<open>JSON.stringify\<close> (without escapes in
  strings), to have a concrete \<open>stringify\<close> where an example needs one.
\<close>

fun join_with :: "string \<Rightarrow> string list \<Rightarrow> string" where
  "join_with sep [] = []"
| "join_with sep [x] = x"
| "join_with sep (x # y # ys) = x @ sep @ join_with sep (y # ys)"

fun render :: "jsval \<Rightarrow> string" where
  "render JUndefined = ''undefined''"
| "render JNull = ''null''"
| "render (JBool b) = (if b then ''true'' else ''false'')"
| "render (JNum n) = (if n < 0 then CHR ''-'' # show_nat (nat (- n)) else show_nat (nat n))"
| "render JNaN = ''null''"
| "render (JStr s) = [CHR 0x22] @ s @ [CHR 0x22]"
| "render (JArr xs) = ''['' @ join_with '','' (map render xs) @ '']''"
| "render (JObj kvs) =
     ''{'' @ join_with '','' (map (\<lambda>p. [CHR 0x22] @ fst p @ [CHR 0x22] @ '':'' @ render (snd p)) kvs) @ ''}''"

definition example_env :: env where
  "example_env = \<lparr>stringify = render, shallowEqual = (=), arraySpread = iterate\<rparr>"

text \<open>The same in a build by Babel 6; the lengths of the examples are numbers.\<close>

definition example_toLength :: "jsval \<Rightarrow> nat" where
  "example_toLength v = (case v of JNum n \<Rightarrow> nat n | _ \<Rightarrow> 0)"

definition example_babel_env :: env where
  "example_babel_env = example_env\<lparr>arraySpread := toConsumableArray example_toLength\<rparr>"

text \<open>The replicators of the replication tree of a provider, in the order of the search.\<close>

definition replicators_of :: "provider \<Rightarrow> replicator list" where
  "replicators_of p =
     concat (map (\<lambda>r. case replicator r of None \<Rightarrow> [] | Some reps \<Rightarrow> as_array reps)
       (case replication p of None \<Rightarrow> [] | Some r \<Rightarrow> as_array r))"

definition example_consumer :: "(string \<times> jsval) list option \<Rightarrow> fauxInstance" where
  "example_consumer qs =
     \<lparr>queries = qs, query = JNull, queryOptions = None, queriesOptions = [],
      props_query = JNull, props_result = JUndefined, props_results = None,
      doUpdate = JUndefined, update = None\<rparr>"

definition example_provider :: "(jsval \<Rightarrow> (string \<times> jsval) list \<Rightarrow> response) option \<Rightarrow> provider" where
  "example_provider h =
     \<lparr>reducers = [''x''], wait = Some (One (Hook 1)), clear = Some (Many [Hook 2]),
      replication = Some (One \<lparr>replicator = Some (Many [\<lparr>handleQuery = None\<rparr>, \<lparr>handleQuery = h\<rparr>]),
                                reducerKeys = None\<rparr>)\<rparr>"

text \<open>Query handlers that answer later, and at once.\<close>

definition example_later :: "jsval \<Rightarrow> (string \<times> jsval) list \<Rightarrow> response" where
  "example_later q options = Later"

definition example_now :: "jsval \<Rightarrow> (string \<times> jsval) list \<Rightarrow> response" where
  "example_now q options = Now (JArr [q])"

definition is_HandleQuery :: "event \<Rightarrow> bool" where
  "is_HandleQuery e = (case e of HandleQuery key q options a \<Rightarrow> True | _ \<Rightarrow> False)"

text \<open>
  Two consumers with the same sub-query for one provider, and the state after both have
  called \<^verbatim>\<open>handleQueries\<close>.
\<close>

definition example_two_consumers :: qstate where
  "example_two_consumers =
     qinit [(''A'', example_provider (Some example_later))]
       [example_consumer (Some [(''A'', JObj [(''x'', JNum 1)])]),
        example_consumer (Some [(''A'', JObj [(''x'', JNum 1)])])]"


definition example_joined :: qstate where
  "example_joined =
     the (qrun example_env example_two_consumers [Invoke 0 (Some (Hook 7)), Invoke 1 (Some (Hook 8))])"

text \<open>
  A consumer with a flat query over the providers \<open>A\<close> and \<open>B\<close>, beside a consumer
  with the sub-query for \<open>B\<close> alone; the state after both have called
  \<^verbatim>\<open>handleQueries\<close> and \<open>A\<close> has answered with an object.
\<close>

definition example_flat_consumer :: fauxInstance where
  "example_flat_consumer =
     (example_consumer (Some [(''A'', JObj [(''x'', JNum 1)]), (''B'', JObj [(''y'', JNum 2)])]))
       \<lparr>query := JObj [(''x'', JNum 1), (''y'', JNum 2)],
        props_query := JObj [(''x'', JNum 1), (''y'', JNum 2)]\<rparr>"

definition example_flat :: qstate where
  "example_flat =
     qinit [(''A'', example_provider (Some example_later)),
            (''B'', example_provider (Some example_later))]
       [example_flat_consumer, example_consumer (Some [(''B'', JObj [(''y'', JNum 2)])])]"

definition example_flat_joined :: qstate where
  "example_flat_joined =
     the (qrun example_env example_flat
            [Invoke 0 None, Invoke 1 None, Respond 0 (JObj [(''a'', JNum 1)])])"

text \<open>The flat consumer alone has called, and \<open>B\<close> has answered first, with an array.\<close>

definition example_flat_pending :: qstate where
  "example_flat_pending =
     the (qrun example_env example_flat [Invoke 0 None, Respond 1 (JArr [JNum 2])])"

text \<open>
  For \<^verbatim>\<open>instantiateProvider\<close>: a store collaborator that gives the stores of the
  definition \<open>user\<close> an \<^verbatim>\<open>onReady\<close>, three definitions (\<open>theme\<close> with the
  subscriber \<open>list\<close>, \<open>list\<close> subscribing to \<open>theme\<close>, and the global, replicated
  \<open>user\<close>), and one caller with an empty table of instances.
\<close>

definition example_penv :: penv where
  "example_penv =
     \<lparr>createProviderStore = (\<lambda>pk k. (pk = ''user'', False)),
      getRelevantKeys = (\<lambda>rs p. filter (\<lambda>r. map_of (own_enumerable p) r \<noteq> None) rs)\<rparr>"

definition example_definition :: providerDefinition where
  "example_definition =
     \<lparr>reducers = [], wait = None, clear = None, replication = None,
      isGlobal = False, hasThunk = False, middleware = [], subscribers = None,
      subscribeTo = None, instances = None, onReady = None, onInstantiated = None,
      actions = []\<rparr>"

definition example_definitions :: "(string \<times> providerDefinition) list" where
  "example_definitions =
     [(''theme'', example_definition
         \<lparr>reducers := [''themeName''], wait := Some (One (Hook 1)), clear := Some (One (Hook 2)),
          subscribers := Some [(''list'', Hook 3)]\<rparr>),
      (''list'', example_definition
         \<lparr>reducers := [''items''], subscribeTo := Some [(''theme'', Hook 3)]\<rparr>),
      (''user'', example_definition
         \<lparr>reducers := [''userId''], replication := Some (Many []), isGlobal := True\<rparr>)]"

definition example_caller :: caller where
  "example_caller = \<lparr>props = JObj [], providerInstances = Some 0, relevantProviders = Some []\<rparr>"

definition example_pstate :: pstate where
  "example_pstate = pinit example_definitions 1 [example_caller]"

section \<open>Properties of the object model\<close>

lemma map_of_obj_put: "map_of (obj_put kvs k v) = (map_of kvs)(k \<mapsto> v)"
  by (induction kvs) (auto simp: fun_eq_iff)

text \<open>
  Reading a property of \<^verbatim>\<open>{ ...target, ...src }\<close>: the value \<open>src\<close> has for it,
  and \<open>target\<close>'s where \<open>src\<close> has none.
\<close>

lemma map_of_assign:
  "distinct (map fst src) \<Longrightarrow> map_of (assign target src) = map_of target ++ map_of src"
  unfolding assign_def
proof (induction src arbitrary: target)
  case Nil
  then show ?case by simp
next
  case (Cons a src)
  obtain k v where a: "a = (k, v)" by (cases a)
  from Cons.prems a have nk: "k \<notin> fst ` set src" and d: "distinct (map fst src)" by auto
  from nk have "map_of src k = None" by (simp add: map_of_eq_None_iff)
  then have eq: "(map_of target)(k \<mapsto> v) ++ map_of src = map_of target ++ map_of ((k, v) # src)"
    by (auto simp: fun_eq_iff map_add_def split: option.splits)
  have "map_of (foldl (\<lambda>obj (k, v). obj_put obj k v) target (a # src))
          = map_of (foldl (\<lambda>obj (k, v). obj_put obj k v) (obj_put target k v) src)"
    unfolding a by simp
  also have "\<dots> = map_of (obj_put target k v) ++ map_of src"
    by (rule Cons.IH[OF d])
  also have "\<dots> = (map_of target)(k \<mapsto> v) ++ map_of src"
    by (simp only: map_of_obj_put)
  also note eq
  finally show ?case unfolding a .
qed

lemma map_of_foldl_assign:
  "\<forall>obj \<in> set objs. distinct (map fst obj) \<Longrightarrow>
   map_of (foldl assign acc objs) = foldl (++) (map_of acc) (map map_of objs)"
  by (induction objs arbitrary: acc) (simp_all add: map_of_assign)

lemma obj_put_append:
  "\<forall>p \<in> set m. fst p \<noteq> k \<and> \<not> key_before k (fst p) \<Longrightarrow> obj_put m k v = m @ [(k, v)]"
  by (induction m) auto

lemma key_before_step:
  "key_before k k' \<Longrightarrow> \<not> key_before k'' k' \<Longrightarrow> k'' \<noteq> k \<and> \<not> key_before k'' k"
  by (auto simp: key_before_def split: option.splits)

lemma key_before_irrefl: "\<not> key_before k k"
  by (auto simp: key_before_def split: option.splits)

lemma set_obj_put: "p \<in> set (obj_put m k v) \<Longrightarrow> p = (k, v) \<or> p \<in> set m"
  by (induction m) (auto split: if_splits)

text \<open>Assignments keep an object in enumeration order.\<close>

lemma obj_ordered_obj_put: "obj_ordered m \<Longrightarrow> obj_ordered (obj_put m k v)"
proof (induction m)
  case Nil
  then show ?case by (simp add: obj_ordered_def)
next
  case (Cons a m)
  obtain k' v' where a: "a = (k', v')" by (cases a)
  from Cons.prems have tl: "obj_ordered m"
    and hd: "\<forall>q \<in> set m. k' \<noteq> fst q \<and> \<not> key_before (fst q) k'"
    by (auto simp: obj_ordered_def a)
  show ?case
  proof (cases "k' = k")
    case True
    with hd tl show ?thesis by (auto simp: a obj_ordered_def)
  next
    case ne: False
    show ?thesis
    proof (cases "key_before k k'")
      case True
      have "\<forall>q \<in> set m. k \<noteq> fst q \<and> \<not> key_before (fst q) k"
        using hd key_before_step[OF True] by metis
      with True ne hd tl show ?thesis
        using key_before_step[OF True, of k'] key_before_irrefl[of k']
        by (auto simp: a obj_ordered_def)
    next
      case False
      have "\<forall>q \<in> set (obj_put m k v). k' \<noteq> fst q \<and> \<not> key_before (fst q) k'"
        using hd False ne set_obj_put[of _ m k v] by fastforce
      with False ne Cons.IH[OF tl] show ?thesis
        by (auto simp: a obj_ordered_def)
    qed
  qed
qed

lemma obj_ordered_assign: "obj_ordered t \<Longrightarrow> obj_ordered (assign t src)"
  unfolding assign_def
  by (induction src arbitrary: t) (auto simp: obj_ordered_obj_put)

text \<open>Copying an object into a fresh one gives the same object.\<close>

lemma assign_Nil_id: "obj_ordered m \<Longrightarrow> assign [] m = m"
proof (induction m rule: rev_induct)
  case Nil
  then show ?case by (simp add: assign_def)
next
  case (snoc x m)
  obtain k v where x: "x = (k, v)" by (cases x)
  from snoc.prems have m: "obj_ordered m"
    and last: "\<forall>p \<in> set m. fst p \<noteq> k \<and> \<not> key_before k (fst p)"
    by (auto simp: obj_ordered_def sorted_wrt_append x)
  have "assign [] (m @ [x]) = obj_put (assign [] m) k v"
    by (simp add: assign_def x)
  also have "\<dots> = obj_put m k v" by (simp add: snoc.IH[OF m])
  also have "\<dots> = m @ [(k, v)]" by (rule obj_put_append[OF last])
  finally show ?case by (simp add: x)
qed

section \<open>Properties of getMergedResult\<close>

lemma merge_result_object:
  "obj_ordered acc \<Longrightarrow> merge_result E (JObj acc) (JObj obj) = Inr (JObj (assign acc obj))"
  by (simp add: merge_result_def or_else_def assign_Nil_id)

lemma merge_loop_objects:
  "length ks = length objs \<Longrightarrow> obj_ordered acc \<Longrightarrow>
   merge_loop E (JObj acc) (zip ks (map JObj objs)) = Inr (JObj (foldl assign acc objs))"
proof (induction objs arbitrary: ks acc)
  case Nil
  then show ?case by simp
next
  case (Cons obj objs)
  then obtain k ks' where ks: "ks = k # ks'" and len: "length ks' = length objs"
    by (cases ks) auto
  have "obj_ordered (assign acc obj)" using Cons.prems(2) by (rule obj_ordered_assign)
  from Cons.IH[OF len this] show ?case
    by (simp add: ks merge_result_object[OF Cons.prems(2)])
qed

lemma spread_array:
  "native_build E \<or> babel_build E \<Longrightarrow> arraySpread E (JArr xs) = Inr xs"
  by (auto simp: native_build_def babel_build_def toConsumableArray_def)

lemma merge_result_array:
  "native_build E \<or> babel_build E \<Longrightarrow>
   merge_result E (JArr acc) (JArr xs) = Inr (JArr (acc @ xs))"
  by (simp add: merge_result_def or_else_def spread_array)

lemma merge_loop_arrays:
  "native_build E \<or> babel_build E \<Longrightarrow> length ks = length xss \<Longrightarrow>
   merge_loop E (JArr acc) (zip ks (map JArr xss)) = Inr (JArr (acc @ concat xss))"
proof (induction xss arbitrary: ks acc)
  case Nil
  then show ?case by simp
next
  case (Cons xs xss)
  then obtain k ks' where ks: "ks = k # ks'" and len: "length ks' = length xss"
    by (cases ks) auto
  from Cons.IH[OF Cons.prems(1) len, of "acc @ xs"] show ?case
    by (simp add: ks merge_result_array[OF Cons.prems(1)])
qed

lemma merge_result_first_object:
  "merge_result E JNull (JObj obj) = Inr (JObj (assign [] obj))"
  by (simp add: merge_result_def or_else_def assign_def)

lemma merge_result_first_array:
  "native_build E \<or> babel_build E \<Longrightarrow> merge_result E JNull (JArr xs) = Inr (JArr xs)"
  by (simp add: merge_result_def or_else_def spread_array)

lemma merge_loop_append:
  "merge_loop E m0 (pre @ post) =
     (case merge_loop E m0 pre of Inl e \<Rightarrow> Inl e | Inr m \<Rightarrow> merge_loop E m post)"
  by (induction pre arbitrary: m0) (auto split: sum.splits)

lemma merge_loop_error: "merge_loop E m0 results = Inl e \<Longrightarrow> e = TypeError"
  by (cases e) simp

lemmas merged_example_simps =
  getMergedResult_def merge_result_def or_else_def assign_def key_before_def
  array_index_def digit_val_def is_container_def is_scalar_def example_env_def
  example_babel_env_def toConsumableArray_def example_toLength_def

lemma example_builds: "native_build example_env" "babel_build example_babel_env"
  by (auto simp: native_build_def babel_build_def example_env_def example_babel_env_def)

text \<open>
  The merge of results that are all plain objects, and of results that are all arrays,
  in the enumeration order of the results mapping.
\<close>

lemma getMergedResult_objects:
  assumes "length ks = length objs" and "objs \<noteq> []"
  shows "getMergedResult E (JObj (zip ks (map JObj objs))) = Inr (JObj (foldl assign [] objs))"
proof -
  from assms obtain obj objs' where objs: "objs = obj # objs'" by (cases objs) auto
  with assms obtain k ks' where ks: "ks = k # ks'" and len: "length ks' = length objs'"
    by (cases ks) auto
  have "obj_ordered (assign [] obj)"
    by (rule obj_ordered_assign) (simp add: obj_ordered_def)
  from merge_loop_objects[OF len this]
  show ?thesis by (simp add: getMergedResult_def ks objs merge_result_first_object)
qed

lemma getMergedResult_arrays:
  assumes "native_build E \<or> babel_build E" and "length ks = length xss" and "xss \<noteq> []"
  shows "getMergedResult E (JObj (zip ks (map JArr xss))) = Inr (JArr (concat xss))"
proof -
  from assms obtain xs xss' where xss: "xss = xs # xss'" by (cases xss) auto
  with assms obtain k ks' where ks: "ks = k # ks'" and len: "length ks' = length xss'"
    by (cases ks) auto
  from merge_loop_arrays[OF assms(1) len, of xs]
  show ?thesis by (simp add: getMergedResult_def ks xss merge_result_first_array[OF assms(1)])
qed

lemma merge_result_scalar: "is_scalar s \<Longrightarrow> merge_result E m s = Inr s"
  by (auto simp: merge_result_def is_scalar_def is_container_def)




lemma merge_result_not_iterable:
  "native_build E \<Longrightarrow> truthy m \<Longrightarrow> iterate m = Inl TypeError \<Longrightarrow>
   merge_result E m (JArr xs) = Inl TypeError"
  by (simp add: merge_result_def or_else_def native_build_def)

lemma merge_result_to_object: "\<exists>kvs. merge_result E m (JObj obj) = Inr (JObj kvs)"
  by (simp add: merge_result_def)

lemma merge_result_nonzero: "n \<noteq> 0 \<Longrightarrow> merge_result E m (JNum n) = Inr (JNum n)"
  by (simp add: merge_result_def)

text \<open>In a build by Babel 6 no round of the loop throws.\<close>

lemma babel_spread_truthy:
  "babel_build E \<Longrightarrow> truthy v \<Longrightarrow> \<exists>xs. arraySpread E v = Inr xs"
  by (cases v) (auto simp: babel_build_def toConsumableArray_def split: option.splits)

lemma babel_merge_result: "babel_build E \<Longrightarrow> \<exists>v. merge_result E m result = Inr v"
proof -
  assume b: "babel_build E"
  have "truthy (or_else m (JArr []))" by (simp add: or_else_def)
  from babel_spread_truthy[OF b this] obtain xs where
    xs: "arraySpread E (or_else m (JArr [])) = Inr xs" by blast
  show ?thesis
  proof (cases "isArray result")
    case True
    then have "truthy result" by (cases result) simp_all
    from babel_spread_truthy[OF b this] obtain ys where "arraySpread E result = Inr ys" by blast
    with True xs show ?thesis by (simp add: merge_result_def)
  next
    case False
    then show ?thesis by (simp add: merge_result_def)
  qed
qed

lemma babel_merge_loop: "babel_build E \<Longrightarrow> \<exists>v. merge_loop E m results = Inr v"
proof (induction results arbitrary: m)
  case Nil
  then show ?case by simp
next
  case (Cons p results)
  obtain k result where p: "p = (k, result)" by (cases p)
  from babel_merge_result[OF Cons.prems] obtain m' where "merge_result E m result = Inr m'"
    by blast
  with Cons.IH[OF Cons.prems, of m'] p show ?case by simp
qed

lemma assign_keys: "fst ` set (foldl (\<lambda>obj (k, v). obj_put obj k v) target src) \<subseteq> fst ` set target \<union> fst ` set src"
proof (induction src arbitrary: target)
  case Nil
  then show ?case by simp
next
  case (Cons p src)
  obtain k v where p: "p = (k, v)" by (cases p)
  have "fst ` set (obj_put target k v) \<subseteq> insert k (fst ` set target)"
    using set_obj_put[of _ target k v] by force
  with Cons[of "obj_put target k v"] show ?case by (auto simp: p)
qed

lemma babel_array_after_object:
  assumes "babel_build E" and "''length'' \<notin> fst ` set obj"
  shows "merge_result E (JObj (assign [] obj)) (JArr xs) = Inr (JArr xs)"
proof -
  from assms(1) obtain len where len: "arraySpread E = toConsumableArray len"
    by (auto simp: babel_build_def)
  have "''length'' \<notin> fst ` set (assign [] obj)"
    using assign_keys[of "[]" obj] assms(2) by (auto simp: assign_def)
  then have "map_of (assign [] obj) ''length'' = None"
    by (simp add: map_of_eq_None_iff)
  then show ?thesis
    by (simp add: merge_result_def or_else_def len toConsumableArray_def)
qed




section \<open>The invariants of the executor hold in every run\<close>

lemma called_only_simps [simp]:
  "called_only []" "called_only (Called h args # es) = called_only es"
  "called_only (xs @ ys) = (called_only xs \<and> called_only ys)"
  by (auto simp: called_only_def)

lemma called_only_count [simp]: "called_only es \<Longrightarrow> count_list es (Callback i cb) = 0"
  by (auto simp: called_only_def count_list_0_iff)

lemma called_only_notin: "called_only es \<Longrightarrow> Callback i cb \<notin> set es"
  by (auto simp: called_only_def)

lemma callback_events_set: "e \<in> set (callback_events i cb) \<Longrightarrow> e = Callback i (the cb) \<and> cb \<noteq> None"
  by (auto simp: callback_events_def split: option.splits)

lemma callback_events_count:
  "count_list (callback_events i cb) (Callback j fn) = (if j = i \<and> cb = Some fn then 1 else 0)"
  by (auto simp: callback_events_def split: option.splits)

lemma map_update_same: "f y = f (xs ! i) \<Longrightarrow> map f (xs[i := y]) = map f xs"
proof (rule nth_equalityI)
  show "length (map f (xs[i := y])) = length (map f xs)" by simp
next
  fix j assume "j < length (map f (xs[i := y]))"
  then show "f y = f (xs ! i) \<Longrightarrow> map f (xs[i := y]) ! j = map f xs ! j"
    by (cases "i = j") auto
qed

lemma clear_effect:
  assumes "handleQueries_clear E i s = Inr s'"
  shows "invocations s' = (invocations s)[i := (invocations s ! i)\<lparr>semaphore := semaphore (invocations s ! i) - 1\<rparr>]"
    and "resultHandlers s' = resultHandlers s"
    and "activeQueries s' = activeQueries s"
    and "in_flight s' = in_flight s"
    and "queryResults s' = queryResults s"
    and "providers s' = providers s"
    and "length (fauxInstances s') = length (fauxInstances s)"
    and "map queries (fauxInstances s') = map queries (fauxInstances s)"
    and "map props_results (fauxInstances s') = map props_results (fauxInstances s)"
    and "map doUpdate (fauxInstances s') = map doUpdate (fauxInstances s)"
    and "\<exists>us. called_only us \<and> log s' = log s @ us @
           (if semaphore (invocations s ! i) = 1
            then callback_events i (callback (invocations s ! i)) else [])"
  using assms
  by (auto simp: handleQueries_clear_def Let_def thenE_def map_update_same
      split: if_splits sum.splits option.splits)

lemma map_eq_nth: "map f xs = map f ys \<Longrightarrow> k < length xs \<Longrightarrow> f (xs ! k) = f (ys ! k)"
  by (metis length_map nth_map)

lemma clear_refs_ok:
  assumes "refs_ok s" "i < length (invocations s)" "handleQueries_clear E i s = Inr s'"
  shows "refs_ok s'"
proof -
  note e = clear_effect[OF assms(3)]
  from e(11) obtain us where us: "called_only us"
    and lg: "log s' = log s @ us @
           (if semaphore (invocations s ! i) = 1
            then callback_events i (callback (invocations s ! i)) else [])" by blast
  have len: "length (invocations s') = length (invocations s)" using e(1) by simp
  from assms(1) have a: "\<forall>inv \<in> set (invocations s). faux inv < length (fauxInstances s)"
    unfolding refs_ok_def by blast
  from assms(1) have b: "\<forall>p \<in> set (resultHandlers s). \<forall>h \<in> set (snd p). h_inv h < length (invocations s)"
    unfolding refs_ok_def by blast
  from assms(1) have c: "\<forall>j cb. Callback j cb \<in> set (log s) \<longrightarrow> j < length (invocations s)"
    unfolding refs_ok_def by blast
  have sub: "set (invocations s') \<subseteq>
      insert ((invocations s ! i)\<lparr>semaphore := semaphore (invocations s ! i) - 1\<rparr>) (set (invocations s))"
    unfolding e(1) by (rule set_update_subset_insert)
  have fi: "faux (invocations s ! i) < length (fauxInstances s)"
    using a assms(2) by (simp add: nth_mem)
  have 1: "\<forall>inv \<in> set (invocations s'). faux inv < length (fauxInstances s')"
  proof
    fix inv assume "inv \<in> set (invocations s')"
    with sub have "inv = (invocations s ! i)\<lparr>semaphore := semaphore (invocations s ! i) - 1\<rparr>
        \<or> inv \<in> set (invocations s)" by auto
    then show "faux inv < length (fauxInstances s')" using fi a e(7) by auto
  qed
  have 2: "\<forall>p \<in> set (resultHandlers s'). \<forall>h \<in> set (snd p). h_inv h < length (invocations s')"
    using b e(2) len by simp
  have 3: "\<forall>j cb. Callback j cb \<in> set (log s') \<longrightarrow> j < length (invocations s')"
  proof (intro allI impI)
    fix j cb assume "Callback j cb \<in> set (log s')"
    then have "Callback j cb \<in> set (log s) \<or> j = i"
      unfolding lg using called_only_notin[OF us, of j cb] by (auto split: if_splits dest: callback_events_set)
    with c assms(2) show "j < length (invocations s')" by (auto simp: len)
  qed
  from 1 2 3 show ?thesis unfolding refs_ok_def by blast
qed

lemma clear_pending_ok:
  assumes "pending_ok s" "handleQueries_clear E i s = Inr s'"
  shows "pending_ok s'"
  using assms(1) clear_effect(2,3,4)[OF assms(2)] unfolding pending_ok_def by simp

lemma handler_count_cong: "resultHandlers s' = resultHandlers s \<Longrightarrow> handler_count s' i = handler_count s i"
  by (simp add: handler_count_def)

lemma clear_counters_ok:
  assumes "counters_ok s owed" "refs_ok s" "i < length (invocations s)" "0 < owed i"
    and "handleQueries_clear E i s = Inr s'"
  shows "counters_ok s' (owed(i := owed i - 1))"
proof -
  note e = clear_effect[OF assms(5)]
  from e(11) obtain us where us: "called_only us"
    and lg: "log s' = log s @ us @
           (if semaphore (invocations s ! i) = 1
            then callback_events i (callback (invocations s ! i)) else [])" by blast
  have hc: "\<And>j. handler_count s' j = handler_count s j"
    by (rule handler_count_cong) (rule e(2))
  have fx: "\<And>j. j < length (invocations s) \<Longrightarrow> faux (invocations s' ! j) = faux (invocations s ! j)"
    using e(1) assms(3) by (simp add: nth_list_update)
  have cbk: "\<And>j. j < length (invocations s) \<Longrightarrow> callback (invocations s' ! j) = callback (invocations s ! j)"
    using e(1) assms(3) by (simp add: nth_list_update)
  have q: "\<And>j. j < length (invocations s) \<Longrightarrow>
      queries (fauxInstances s' ! faux (invocations s ! j)) = queries (fauxInstances s ! faux (invocations s ! j))"
    using assms(2) e(7) map_eq_nth[OF e(8)] unfolding refs_ok_def by (metis nth_mem)
  show ?thesis unfolding counters_ok_def
  proof (intro allI impI)
    fix j assume "j < length (invocations s')"
    then have j: "j < length (invocations s)" using e(1) by simp
    from assms(1) j have sem: "semaphore (invocations s ! j) = int (handler_count s j + owed j)"
      unfolding counters_ok_def by blast
    from assms(1) j have ne: "semaphore (invocations s ! j) = 0 \<or>
         queries (fauxInstances s ! faux (invocations s ! j)) \<noteq> Some []"
      unfolding counters_ok_def by blast
    from assms(1) j have cnt: "\<And>cb. count_list (log s) (Callback j cb) =
           (if semaphore (invocations s ! j) = 0 \<and> callback (invocations s ! j) = Some cb \<and>
               queries (fauxInstances s ! faux (invocations s ! j)) \<noteq> Some []
            then 1 else 0)"
      unfolding counters_ok_def by blast
    show "semaphore (invocations s' ! j) = int (handler_count s' j + (owed(i := owed i - 1)) j) \<and>
        (semaphore (invocations s' ! j) = 0 \<or>
         queries (fauxInstances s' ! faux (invocations s' ! j)) \<noteq> Some []) \<and>
        (\<forall>cb. count_list (log s') (Callback j cb) =
           (if semaphore (invocations s' ! j) = 0 \<and> callback (invocations s' ! j) = Some cb \<and>
               queries (fauxInstances s' ! faux (invocations s' ! j)) \<noteq> Some []
            then 1 else 0))"
    proof (cases "j = i")
      case True
      have s': "semaphore (invocations s' ! i) = semaphore (invocations s ! i) - 1"
        using e(1) assms(3) by simp
      from sem assms(4) True have pos: "semaphore (invocations s ! i) \<ge> 1" by simp
      with ne True have qne: "queries (fauxInstances s ! faux (invocations s ! i)) \<noteq> Some []" by auto
      from pos cnt True have c0: "\<And>cb. count_list (log s) (Callback i cb) = 0" by auto
      show ?thesis unfolding True hc fx[OF assms(3)] cbk[OF assms(3)] q[OF assms(3)] s' lg
        using sem[unfolded True] assms(4) qne c0 us
        by (auto simp: callback_events_count)
    next
      case False
      have s': "invocations s' ! j = invocations s ! j" using e(1) False by simp
      show ?thesis unfolding s' hc q[OF j] lg
        using sem ne cnt False us by (auto simp: callback_events_count)
    qed
  qed
qed

lemma clear_qinv:
  assumes "qinv s owed" "i < length (invocations s)" "0 < owed i"
    and "handleQueries_clear E i s = Inr s'"
  shows "qinv s' (owed(i := owed i - 1))"
  using assms clear_refs_ok clear_pending_ok clear_counters_ok unfolding qinv_def by blast

lemma called_only_wait_hooks [simp]: "called_only (wait_hooks p)"
proof (cases "wait p")
  case None
  then show ?thesis by (simp add: wait_hooks_def)
next
  case (Some w)
  then show ?thesis by (cases w) (auto simp: wait_hooks_def called_only_def)
qed

lemma called_only_clear_hooks [simp]: "called_only (clear_hooks p v)"
proof (cases "clear p")
  case None
  then show ?thesis by (simp add: clear_hooks_def)
next
  case (Some w)
  then show ?thesis by (cases w) (auto simp: clear_hooks_def called_only_def)
qed

text \<open>Steps that touch neither the counters nor the pending arrays keep the invariant.\<close>

lemma qinv_frame:
  assumes "qinv s owed"
    and "invocations s' = invocations s" "resultHandlers s' = resultHandlers s"
    and "activeQueries s' = activeQueries s" "in_flight s' = in_flight s"
    and "length (fauxInstances s') = length (fauxInstances s)"
    and "map queries (fauxInstances s') = map queries (fauxInstances s)"
    and "log s' = log s @ us" "\<forall>e \<in> set us. \<forall>i cb. e \<noteq> Callback i cb"
  shows "qinv s' owed"
proof -
  have cnt: "\<And>i cb. count_list (log s') (Callback i cb) = count_list (log s) (Callback i cb)"
    using assms(8,9) by (auto simp: count_list_0_iff)
  have mem: "\<And>i cb. Callback i cb \<in> set (log s') \<longleftrightarrow> Callback i cb \<in> set (log s)"
    using assms(8,9) by auto
  have hc: "\<And>j. handler_count s' j = handler_count s j"
    by (simp add: handler_count_def assms(3))
  from assms(1) have r: "refs_ok s" and p: "pending_ok s" and c: "counters_ok s owed"
    unfolding qinv_def by blast+
  have r': "refs_ok s'"
    using r unfolding refs_ok_def assms(2,3,6) mem by blast
  have p': "pending_ok s'"
    using p unfolding pending_ok_def assms(3,4,5) by blast
  have q: "\<And>j. j < length (invocations s) \<Longrightarrow>
      queries (fauxInstances s' ! faux (invocations s ! j)) = queries (fauxInstances s ! faux (invocations s ! j))"
    using r assms(6) map_eq_nth[OF assms(7)] unfolding refs_ok_def by (metis nth_mem)
  have c': "counters_ok s' owed"
    unfolding counters_ok_def assms(2) hc cnt
  proof (intro allI impI)
    fix j assume j: "j < length (invocations s)"
    from c j show "semaphore (invocations s ! j) = int (handler_count s j + owed j) \<and>
        (semaphore (invocations s ! j) = 0 \<or>
         queries (fauxInstances s' ! faux (invocations s ! j)) \<noteq> Some []) \<and>
        (\<forall>cb. count_list (log s) (Callback j cb) =
           (if semaphore (invocations s ! j) = 0 \<and> callback (invocations s ! j) = Some cb \<and>
               queries (fauxInstances s' ! faux (invocations s ! j)) \<noteq> Some []
            then 1 else 0))"
      unfolding counters_ok_def q[OF j] by blast
  qed
  from r' p' c' show ?thesis unfolding qinv_def by blast
qed

lemma run_resultHandler_split:
  assumes "run_resultHandler E h v s = Inr s'"
  obtains results s1 s2 p where
    "props_results (fauxInstances s ! faux (invocations s ! h_inv h)) = Some results"
    "s1 = s\<lparr>fauxInstances := (fauxInstances s)[faux (invocations s ! h_inv h) :=
              (if \<not> truthy (doUpdate (fauxInstances s ! faux (invocations s ! h_inv h))) \<and>
                  \<not> shallowEqual E v (obj_get (previousResults (invocations s ! h_inv h)) (h_key h))
               then (fauxInstances s ! faux (invocations s ! h_inv h))\<lparr>doUpdate := JBool True\<rparr>
               else fauxInstances s ! faux (invocations s ! h_inv h))
              \<lparr>props_results := Some (obj_put results (h_key h) v)\<rparr>],
            queryResults := obj_put (queryResults s) (h_resultKey h) v\<rparr>"
    "handleQueries_clear E (h_inv h) s1 = Inr s2"
    "map_of (providers s2) (h_key h) = Some p"
    "s' = s2\<lparr>log := log s2 @ clear_hooks p (doUpdate (fauxInstances s2 ! faux (invocations s ! h_inv h)))\<rparr>"
  using assms
  by (auto simp: run_resultHandler_def Let_def thenE_def split: option.splits sum.splits if_splits)

lemma run_resultHandler_qinv:
  assumes "qinv s owed" "h_inv h < length (invocations s)" "0 < owed (h_inv h)"
    and "run_resultHandler E h v s = Inr s'"
  shows "qinv s' (owed(h_inv h := owed (h_inv h) - 1))"
proof -
  from assms(4) obtain results s1 s2 p where
    s1: "s1 = s\<lparr>fauxInstances := (fauxInstances s)[faux (invocations s ! h_inv h) :=
              (if \<not> truthy (doUpdate (fauxInstances s ! faux (invocations s ! h_inv h))) \<and>
                  \<not> shallowEqual E v (obj_get (previousResults (invocations s ! h_inv h)) (h_key h))
               then (fauxInstances s ! faux (invocations s ! h_inv h))\<lparr>doUpdate := JBool True\<rparr>
               else fauxInstances s ! faux (invocations s ! h_inv h))
              \<lparr>props_results := Some (obj_put results (h_key h) v)\<rparr>],
            queryResults := obj_put (queryResults s) (h_resultKey h) v\<rparr>"
    and cl: "handleQueries_clear E (h_inv h) s1 = Inr s2"
    and s': "s' = s2\<lparr>log := log s2 @ clear_hooks p (doUpdate (fauxInstances s2 ! faux (invocations s ! h_inv h)))\<rparr>"
    by (rule run_resultHandler_split)
  have 1: "qinv s1 owed"
    by (rule qinv_frame[OF assms(1), where us = "[]"]) (auto simp: s1 map_update_same)
  have i1: "h_inv h < length (invocations s1)" using assms(2) by (simp add: s1)
  have 2: "qinv s2 (owed(h_inv h := owed (h_inv h) - 1))"
    by (rule clear_qinv[OF 1 i1 assms(3) cl])
  show ?thesis
    by (rule qinv_frame[OF 2, where us = "clear_hooks p (doUpdate (fauxInstances s2 ! faux (invocations s ! h_inv h)))"])
       (use called_only_notin[OF called_only_clear_hooks] in \<open>auto simp: s'\<close>)
qed

lemma drain_qinv:
  assumes "qinv s (\<lambda>j. owed j + handlers_of hs j)"
    and "\<forall>h \<in> set hs. h_inv h < length (invocations s)"
    and "drain E hs v s = Inr s'"
  shows "qinv s' owed"
  using assms
proof (induction hs arbitrary: s)
  case Nil
  then show ?case by (simp add: handlers_of_def)
next
  case (Cons h hs)
  from Cons.prems(3) obtain s1 where r: "run_resultHandler E h v s = Inr s1"
    and d: "drain E hs v s1 = Inr s'"
    by (auto simp: thenE_def split: sum.splits)
  have pos: "0 < owed (h_inv h) + handlers_of (h # hs) (h_inv h)"
    by (simp add: handlers_of_def)
  have hi: "h_inv h < length (invocations s)" using Cons.prems(2) by simp
  have "qinv s1 ((\<lambda>j. owed j + handlers_of (h # hs) j)
      (h_inv h := owed (h_inv h) + handlers_of (h # hs) (h_inv h) - 1))"
    by (rule run_resultHandler_qinv[OF Cons.prems(1) hi pos r])
  moreover have "(\<lambda>j. owed j + handlers_of (h # hs) j)
      (h_inv h := owed (h_inv h) + handlers_of (h # hs) (h_inv h) - 1) = (\<lambda>j. owed j + handlers_of hs j)"
    by (auto simp: fun_eq_iff handlers_of_def)
  ultimately have q1: "qinv s1 (\<lambda>j. owed j + handlers_of hs j)" by simp
  have len: "length (invocations s1) = length (invocations s)"
    using r by (elim run_resultHandler_split) (auto dest: clear_effect(1))
  show ?case
    by (rule Cons.IH[OF q1 _ d]) (use Cons.prems(2) len in auto)
qed

lemma map_of_obj_delete: "map_of (obj_delete obj k) k' = (if k' = k then None else map_of obj k')"
  by (induction obj) (auto simp: obj_delete_def)

lemma set_obj_delete: "set (obj_delete obj k) = {p \<in> set obj. fst p \<noteq> k}"
  by (auto simp: obj_delete_def)

lemma sum_list_map_update:
  "a < length xs \<Longrightarrow> sum_list (map f (xs[a := y])) + f (xs ! a) = sum_list (map f xs) + (f y :: nat)"
proof (induction xs arbitrary: a)
  case Nil
  then show ?case by simp
next
  case (Cons x xs)
  then show ?case by (cases a) auto
qed

lemma handler_count_update:
  assumes "a < length (resultHandlers s)" "resultHandlers s' = (resultHandlers s)[a := (k, hs')]"
  shows "handler_count s' j + handlers_of (snd (resultHandlers s ! a)) j = handler_count s j + handlers_of hs' j"
  using sum_list_map_update[OF assms(1), of "\<lambda>p. length (filter (\<lambda>h. h_inv h = j) (snd p))" "(k, hs')"]
  by (simp add: handler_count_def handlers_of_def assms(2))

lemma counters_okD:
  assumes "counters_ok s owed" "j < length (invocations s)"
  shows "semaphore (invocations s ! j) = int (handler_count s j + owed j)"
    and "semaphore (invocations s ! j) = 0 \<or>
         queries (fauxInstances s ! faux (invocations s ! j)) \<noteq> Some []"
    and "count_list (log s) (Callback j cb) =
           (if semaphore (invocations s ! j) = 0 \<and> callback (invocations s ! j) = Some cb \<and>
               queries (fauxInstances s ! faux (invocations s ! j)) \<noteq> Some []
            then 1 else 0)"
  using assms unfolding counters_ok_def by blast+

lemma complete_prepare:
  assumes "qinv s owed" "a \<in> set (in_flight s)"
  shows "qinv (s\<lparr>activeQueries := obj_delete (activeQueries s) (fst (resultHandlers s ! a)),
                 resultHandlers := (resultHandlers s)[a := (fst (resultHandlers s ! a), [])],
                 in_flight := removeAll a (in_flight s)\<rparr>)
              (\<lambda>j. owed j + handlers_of (snd (resultHandlers s ! a)) j)"
    and "\<forall>h \<in> set (snd (resultHandlers s ! a)). h_inv h < length (invocations s)"
proof -
  define rk where "rk = fst (resultHandlers s ! a)"
  define hs where "hs = snd (resultHandlers s ! a)"
  define s1 where "s1 = s\<lparr>activeQueries := obj_delete (activeQueries s) rk,
                 resultHandlers := (resultHandlers s)[a := (rk, [])],
                 in_flight := removeAll a (in_flight s)\<rparr>"
  from assms(1) have r: "refs_ok s" and p: "pending_ok s" and c: "counters_ok s owed"
    unfolding qinv_def by blast+
  from p assms(2) have a: "a < length (resultHandlers s)"
    and act: "map_of (activeQueries s) rk = Some a"
    unfolding pending_ok_def rk_def by blast+
  show hsv: "\<forall>h \<in> set (snd (resultHandlers s ! a)). h_inv h < length (invocations s)"
    using r a unfolding refs_ok_def by (metis nth_mem)
  have r1: "refs_ok s1"
  proof -
    have "set (resultHandlers s1) \<subseteq> insert (rk, []) (set (resultHandlers s))"
      unfolding s1_def by (simp add: set_update_subset_insert)
    then have "\<forall>p \<in> set (resultHandlers s1). \<forall>h \<in> set (snd p). h_inv h < length (invocations s1)"
      using r unfolding refs_ok_def s1_def by auto
    then show ?thesis using r unfolding refs_ok_def s1_def by simp
  qed
  have p1: "pending_ok s1"
    unfolding pending_ok_def
  proof (intro conjI ballI)
    fix e assume "e \<in> set (activeQueries s1)"
    then have e: "e \<in> set (activeQueries s)" and ne: "fst e \<noteq> rk"
      by (auto simp: s1_def set_obj_delete)
    from p e have e1: "snd e \<in> set (in_flight s)" and e2: "snd e < length (resultHandlers s)"
      and e3: "fst (resultHandlers s ! snd e) = fst e"
      unfolding pending_ok_def by blast+
    from e3 ne have "snd e \<noteq> a" unfolding rk_def by auto
    with e1 e2 e3 show "snd e \<in> set (in_flight s1)" "snd e < length (resultHandlers s1)"
      "fst (resultHandlers s1 ! snd e) = fst e"
      by (auto simp: s1_def)
  next
    fix b assume "b \<in> set (in_flight s1)"
    then have b: "b \<in> set (in_flight s)" and ne: "b \<noteq> a" by (auto simp: s1_def)
    from p b have b1: "b < length (resultHandlers s)"
      and b2: "map_of (activeQueries s) (fst (resultHandlers s ! b)) = Some b"
      unfolding pending_ok_def by blast+
    from b2 act ne have "fst (resultHandlers s ! b) \<noteq> rk" by auto
    with b1 b2 ne show "b < length (resultHandlers s1)"
      "map_of (activeQueries s1) (fst (resultHandlers s1 ! b)) = Some b"
      by (auto simp: s1_def map_of_obj_delete)
  next
    from p show "distinct (in_flight s1)" unfolding pending_ok_def s1_def by (simp add: distinct_removeAll)
  qed
  have hc: "\<And>j. handler_count s1 j + handlers_of hs j = handler_count s j"
    using handler_count_update[OF a, of s1 rk "[]"] unfolding hs_def s1_def
    by (simp add: handlers_of_def)
  have c1: "counters_ok s1 (\<lambda>j. owed j + handlers_of hs j)"
    unfolding counters_ok_def
  proof (intro allI impI)
    fix j assume "j < length (invocations s1)"
    then have j: "j < length (invocations s)" by (simp add: s1_def)
    have "handler_count s1 j + (owed j + handlers_of hs j) = handler_count s j + owed j"
      using hc[of j] by simp
    with counters_okD[OF c j] show "semaphore (invocations s1 ! j) = int (handler_count s1 j + (owed j + handlers_of hs j)) \<and>
        (semaphore (invocations s1 ! j) = 0 \<or>
         queries (fauxInstances s1 ! faux (invocations s1 ! j)) \<noteq> Some []) \<and>
        (\<forall>cb. count_list (log s1) (Callback j cb) =
           (if semaphore (invocations s1 ! j) = 0 \<and> callback (invocations s1 ! j) = Some cb \<and>
               queries (fauxInstances s1 ! faux (invocations s1 ! j)) \<noteq> Some []
            then 1 else 0))"
      unfolding s1_def by simp
  qed
  from r1 p1 c1 show "qinv (s\<lparr>activeQueries := obj_delete (activeQueries s) (fst (resultHandlers s ! a)),
                 resultHandlers := (resultHandlers s)[a := (fst (resultHandlers s ! a), [])],
                 in_flight := removeAll a (in_flight s)\<rparr>)
              (\<lambda>j. owed j + handlers_of (snd (resultHandlers s ! a)) j)"
    unfolding qinv_def s1_def rk_def hs_def by blast
qed

lemma complete_qinv:
  assumes "qinv s owed" "a \<in> set (in_flight s)" "complete E a v s = Inr s'"
  shows "qinv s' owed"
proof -
  from assms(3) have d: "drain E (snd (resultHandlers s ! a)) v
      (s\<lparr>activeQueries := obj_delete (activeQueries s) (fst (resultHandlers s ! a)),
         resultHandlers := (resultHandlers s)[a := (fst (resultHandlers s ! a), [])],
         in_flight := removeAll a (in_flight s)\<rparr>) = Inr s'"
    by (simp add: complete_def Let_def)
  show ?thesis
    by (rule drain_qinv[OF complete_prepare(1)[OF assms(1,2)] _ d])
       (use complete_prepare(2)[OF assms(1,2)] in simp)
qed

lemma body_cases:
  assumes "handleQueries_body E i key q s = Inr s'"
  obtains
    (cached) results where
      "typeof (obj_get (queryResults s) (resultKey_of E (consumer_of s i) key q)) \<noteq> ''undefined''"
      "props_results (fauxInstances s ! faux (invocations s ! i)) = Some results"
      "handleQueries_clear E i
         (s\<lparr>fauxInstances := (fauxInstances s)[faux (invocations s ! i) :=
              (fauxInstances s ! faux (invocations s ! i))
              \<lparr>props_results := Some (obj_put results key (obj_get (queryResults s) (resultKey_of E (consumer_of s i) key q)))\<rparr>]\<rparr>)
       = Inr s'"
  | (joined) p a where
      "typeof (obj_get (queryResults s) (resultKey_of E (consumer_of s i) key q)) = ''undefined''"
      "map_of (providers s) key = Some p"
      "map_of (activeQueries s) (resultKey_of E (consumer_of s i) key q) = Some a"
      "s' = s\<lparr>log := log s @ wait_hooks p,
              resultHandlers := (resultHandlers s)[a := (fst (resultHandlers s ! a),
                 snd (resultHandlers s ! a) @ [ResultHandler i key (resultKey_of E (consumer_of s i) key q)])]\<rparr>"
  | (later) p handler keys where
      "typeof (obj_get (queryResults s) (resultKey_of E (consumer_of s i) key q)) = ''undefined''"
      "map_of (providers s) key = Some p"
      "map_of (activeQueries s) (resultKey_of E (consumer_of s i) key q) = None"
      "getQueryHandler p = Some (handler, keys)"
      "s' = (cold_state E i key q p keys s)\<lparr>in_flight := in_flight s @ [length (resultHandlers s)]\<rparr>"
  | (now) p handler keys v where
      "typeof (obj_get (queryResults s) (resultKey_of E (consumer_of s i) key q)) = ''undefined''"
      "map_of (providers s) key = Some p"
      "map_of (activeQueries s) (resultKey_of E (consumer_of s i) key q) = None"
      "getQueryHandler p = Some (handler, keys)"
      "complete E (length (resultHandlers s)) v (cold_state E i key q p keys s) = Inr s'"
proof (cases "typeof (obj_get (queryResults s) (resultKey_of E (consumer_of s i) key q)) \<noteq> ''undefined''")
  case True
  with assms obtain results where
      "props_results (fauxInstances s ! faux (invocations s ! i)) = Some results"
      "handleQueries_clear E i
         (s\<lparr>fauxInstances := (fauxInstances s)[faux (invocations s ! i) :=
              (fauxInstances s ! faux (invocations s ! i))
              \<lparr>props_results := Some (obj_put results key (obj_get (queryResults s) (resultKey_of E (consumer_of s i) key q)))\<rparr>]\<rparr>)
       = Inr s'"
    by (auto simp: handleQueries_body_def resultKey_of_def Let_def split: option.splits)
  with True show ?thesis by (rule cached)
next
  case False
  with assms obtain p where p: "map_of (providers s) key = Some p"
    by (auto simp: handleQueries_body_def resultKey_of_def Let_def split: option.splits)
  show ?thesis
  proof (cases "map_of (activeQueries s) (resultKey_of E (consumer_of s i) key q)")
    case (Some a)
    with assms False p show ?thesis
      by (intro joined[of p a]) (auto simp: handleQueries_body_def resultKey_of_def Let_def)
  next
    case None
    with assms False p obtain handler keys where h: "getQueryHandler p = Some (handler, keys)"
      by (auto simp: handleQueries_body_def resultKey_of_def Let_def split: option.splits)
    show ?thesis
    proof (cases "handler q (with_select (fst (choose_options (fauxInstances s ! faux (invocations s ! i)) key)) keys)")
      case (Now v)
      with assms False p None h show ?thesis
        by (intro now[of p handler keys v])
           (auto simp: handleQueries_body_def resultKey_of_def cold_state_def Let_def)
    next
      case Later
      with assms False p None h show ?thesis
        by (intro later[of p handler keys])
           (auto simp: handleQueries_body_def resultKey_of_def cold_state_def Let_def)
    qed
  qed
qed

lemma counters_okI:
  assumes "\<And>j. j < length (invocations s) \<Longrightarrow>
      semaphore (invocations s ! j) = int (handler_count s j + owed j) \<and>
      (semaphore (invocations s ! j) = 0 \<or>
         queries (fauxInstances s ! faux (invocations s ! j)) \<noteq> Some []) \<and>
      (\<forall>cb. count_list (log s) (Callback j cb) =
           (if semaphore (invocations s ! j) = 0 \<and> callback (invocations s ! j) = Some cb \<and>
               queries (fauxInstances s ! faux (invocations s ! j)) \<noteq> Some []
            then 1 else 0))"
  shows "counters_ok s owed"
  using assms unfolding counters_ok_def by blast

lemma ball_list_update:
  assumes "\<forall>x \<in> set xs. P x" "P y"
  shows "\<forall>x \<in> set (xs[i := y]). P x"
  using set_update_subset_insert[of xs i y] assms by auto

lemma join_qinv:
  assumes "qinv s owed" "i < length (invocations s)" "0 < owed i"
    and "map_of (activeQueries s) rk = Some a"
    and s': "s' = s\<lparr>resultHandlers := (resultHandlers s)[a := (fst (resultHandlers s ! a),
                 snd (resultHandlers s ! a) @ [ResultHandler i key rk])]\<rparr>"
  shows "qinv s' (owed(i := owed i - 1))"
proof -
  from assms(1) have r: "refs_ok s" and p: "pending_ok s" and c: "counters_ok s owed"
    unfolding qinv_def by blast+
  from assms(4) have "(rk, a) \<in> set (activeQueries s)" by (rule map_of_SomeD)
  with p have a: "a < length (resultHandlers s)" unfolding pending_ok_def by fastforce
  have r': "refs_ok s'"
  proof -
    have old: "\<forall>p \<in> set (resultHandlers s). \<forall>h \<in> set (snd p). h_inv h < length (invocations s)"
      using r unfolding refs_ok_def by blast
    then have "\<forall>h \<in> set (snd (resultHandlers s ! a)). h_inv h < length (invocations s)"
      using a by (metis nth_mem)
    then have new: "\<forall>h \<in> set (snd (fst (resultHandlers s ! a),
                 snd (resultHandlers s ! a) @ [ResultHandler i key rk])). h_inv h < length (invocations s)"
      using assms(2) by auto
    have "\<forall>p \<in> set (resultHandlers s'). \<forall>h \<in> set (snd p). h_inv h < length (invocations s')"
      using ball_list_update[OF old new, of a] by (simp add: s')
    then show ?thesis using r unfolding refs_ok_def s' by simp
  qed
  have fst_same: "\<And>b. b < length (resultHandlers s) \<Longrightarrow> fst (resultHandlers s' ! b) = fst (resultHandlers s ! b)"
    unfolding s' using a by (auto simp: nth_list_update)
  have p': "pending_ok s'"
    unfolding pending_ok_def
  proof (intro conjI ballI)
    fix e assume "e \<in> set (activeQueries s')"
    then have e: "e \<in> set (activeQueries s)" by (simp add: s')
    from p e have e1: "snd e \<in> set (in_flight s)" and e2: "snd e < length (resultHandlers s)"
      and e3: "fst (resultHandlers s ! snd e) = fst e"
      unfolding pending_ok_def by blast+
    from e1 e2 e3 fst_same[OF e2] show "snd e \<in> set (in_flight s')" "snd e < length (resultHandlers s')"
      "fst (resultHandlers s' ! snd e) = fst e"
      by (auto simp: s')
  next
    fix b assume "b \<in> set (in_flight s')"
    then have b: "b \<in> set (in_flight s)" by (simp add: s')
    from p b have b1: "b < length (resultHandlers s)"
      and b2: "map_of (activeQueries s) (fst (resultHandlers s ! b)) = Some b"
      unfolding pending_ok_def by blast+
    from b1 b2 fst_same[OF b1] show "b < length (resultHandlers s')"
      "map_of (activeQueries s') (fst (resultHandlers s' ! b)) = Some b"
      by (auto simp: s')
  next
    from p show "distinct (in_flight s')" unfolding pending_ok_def s' by simp
  qed
  have hc: "\<And>j. handler_count s' j = handler_count s j + (if j = i then 1 else 0)"
    using handler_count_update[OF a, of s' "fst (resultHandlers s ! a)"
        "snd (resultHandlers s ! a) @ [ResultHandler i key rk]"]
    by (auto simp: s' handlers_of_def)
  have c': "counters_ok s' (owed(i := owed i - 1))"
  proof (rule counters_okI)
    fix j assume "j < length (invocations s')"
    then have j: "j < length (invocations s)" by (simp add: s')
    show "semaphore (invocations s' ! j) = int (handler_count s' j + (owed(i := owed i - 1)) j) \<and>
      (semaphore (invocations s' ! j) = 0 \<or>
         queries (fauxInstances s' ! faux (invocations s' ! j)) \<noteq> Some []) \<and>
      (\<forall>cb. count_list (log s') (Callback j cb) =
           (if semaphore (invocations s' ! j) = 0 \<and> callback (invocations s' ! j) = Some cb \<and>
               queries (fauxInstances s' ! faux (invocations s' ! j)) \<noteq> Some []
            then 1 else 0))"
      using counters_okD[OF c j] assms(3) unfolding hc by (auto simp: s')
  qed
  from r' p' c' show ?thesis unfolding qinv_def by blast
qed

lemma queries_store_options [simp]: "queries (store_options src key opts c) = queries c"
  by (cases src) (simp_all add: store_options_def)

lemma handler_count_append:
  "resultHandlers s' = resultHandlers s @ [(k, hs)] \<Longrightarrow>
   handler_count s' j = handler_count s j + handlers_of hs j"
  by (simp add: handler_count_def handlers_of_def)

lemma pending_okD1:
  assumes "pending_ok s" "e \<in> set (activeQueries s)"
  shows "snd e \<in> set (in_flight s)" "snd e < length (resultHandlers s)"
    "fst (resultHandlers s ! snd e) = fst e"
  using assms unfolding pending_ok_def by blast+

lemma pending_okD2:
  assumes "pending_ok s" "b \<in> set (in_flight s)"
  shows "b < length (resultHandlers s)"
    "map_of (activeQueries s) (fst (resultHandlers s ! b)) = Some b"
  using assms unfolding pending_ok_def by blast+

lemma cold_qinv:
  assumes "qinv s owed" "i < length (invocations s)" "0 < owed i"
    and none: "map_of (activeQueries s) (resultKey_of E (consumer_of s i) key q) = None"
    and s': "s' = (cold_state E i key q p keys s)\<lparr>in_flight := in_flight s @ [length (resultHandlers s)]\<rparr>"
  shows "qinv s' (owed(i := owed i - 1))"
proof -
  define rk where "rk = resultKey_of E (consumer_of s i) key q"
  define a where "a = length (resultHandlers s)"
  from assms(1) have r: "refs_ok s" and p: "pending_ok s" and c: "counters_ok s owed"
    unfolding qinv_def by blast+
  have inv': "invocations s' = invocations s"
    and arr': "resultHandlers s' = resultHandlers s @ [(rk, [ResultHandler i key rk])]"
    and act': "activeQueries s' = obj_put (activeQueries s) rk a"
    and fl': "in_flight s' = in_flight s @ [a]"
    and len': "length (fauxInstances s') = length (fauxInstances s)"
    and q': "map queries (fauxInstances s') = map queries (fauxInstances s)"
    and log': "log s' = log s @ wait_hooks p @ [HandleQuery key q
        (with_select (fst (choose_options (fauxInstances s ! faux (invocations s ! i)) key)) keys) a]"
    by (simp_all add: s' cold_state_def Let_def rk_def a_def map_update_same)
  have nocb: "\<And>j cb. Callback j cb \<in> set (log s') \<longleftrightarrow> Callback j cb \<in> set (log s)"
    using called_only_notin[OF called_only_wait_hooks] by (auto simp: log')
  have cnt: "\<And>j cb. count_list (log s') (Callback j cb) = count_list (log s) (Callback j cb)"
    by (simp add: log')
  have r': "refs_ok s'"
    using r assms(2) unfolding refs_ok_def inv' arr' len' nocb by auto
  have inb: "\<forall>b \<in> set (in_flight s). b < a"
    using p unfolding pending_ok_def a_def by blast
  have p': "pending_ok s'"
    unfolding pending_ok_def
  proof (intro conjI ballI)
    fix e assume "e \<in> set (activeQueries s')"
    then have "e = (rk, a) \<or> e \<in> set (activeQueries s)"
      unfolding act' by (rule set_obj_put)
    then show "snd e \<in> set (in_flight s')" "snd e < length (resultHandlers s')"
      "fst (resultHandlers s' ! snd e) = fst e"
    proof -
      assume d: "e = (rk, a) \<or> e \<in> set (activeQueries s)"
      show "snd e \<in> set (in_flight s')" using d pending_okD1(1)[OF p, of e] unfolding fl' by auto
      show "snd e < length (resultHandlers s')"
        using d pending_okD1(2)[OF p, of e] unfolding arr' a_def by auto
      show "fst (resultHandlers s' ! snd e) = fst e"
        using d pending_okD1(2,3)[OF p, of e] unfolding arr' a_def by (auto simp: nth_append)
    qed
  next
    fix b assume "b \<in> set (in_flight s')"
    then have d: "b = a \<or> b \<in> set (in_flight s)" by (auto simp: fl')
    show "b < length (resultHandlers s')" using d pending_okD2(1)[OF p, of b] unfolding arr' a_def by auto
    show "map_of (activeQueries s') (fst (resultHandlers s' ! b)) = Some b"
    proof (cases "b = a")
      case True
      then show ?thesis by (simp add: arr' act' a_def map_of_obj_put)
    next
      case False
      with d have b: "b \<in> set (in_flight s)" by simp
      with p have b1: "b < length (resultHandlers s)"
        and b2: "map_of (activeQueries s) (fst (resultHandlers s ! b)) = Some b"
        unfolding pending_ok_def by blast+
      from b2 none have "fst (resultHandlers s ! b) \<noteq> rk" unfolding rk_def by auto
      with b1 b2 show ?thesis by (simp add: arr' act' nth_append map_of_obj_put)
    qed
  next
    show "distinct (in_flight s')" using p inb unfolding pending_ok_def fl' by auto
  qed
  have hc: "\<And>j. handler_count s' j = handler_count s j + (if j = i then 1 else 0)"
    using handler_count_append[OF arr'] by (simp add: handlers_of_def)
  have qq: "\<And>j. j < length (invocations s) \<Longrightarrow>
      queries (fauxInstances s' ! faux (invocations s ! j)) = queries (fauxInstances s ! faux (invocations s ! j))"
    using r len' map_eq_nth[OF q'] unfolding refs_ok_def by (metis nth_mem)
  have c': "counters_ok s' (owed(i := owed i - 1))"
  proof (rule counters_okI)
    fix j assume "j < length (invocations s')"
    then have j: "j < length (invocations s)" by (simp add: inv')
    show "semaphore (invocations s' ! j) = int (handler_count s' j + (owed(i := owed i - 1)) j) \<and>
      (semaphore (invocations s' ! j) = 0 \<or>
         queries (fauxInstances s' ! faux (invocations s' ! j)) \<noteq> Some []) \<and>
      (\<forall>cb. count_list (log s') (Callback j cb) =
           (if semaphore (invocations s' ! j) = 0 \<and> callback (invocations s' ! j) = Some cb \<and>
               queries (fauxInstances s' ! faux (invocations s' ! j)) \<noteq> Some []
            then 1 else 0))"
      using counters_okD[OF c j] assms(3) unfolding hc cnt inv' qq[OF j] by auto
  qed
  from r' p' c' show ?thesis unfolding qinv_def by blast
qed

lemma complete_in_flight:
  "a \<notin> set xs \<Longrightarrow> complete E a v (s\<lparr>in_flight := xs @ [a]\<rparr>) = complete E a v (s\<lparr>in_flight := xs\<rparr>)"
  by (simp add: complete_def Let_def)

lemma body_qinv:
  assumes "qinv s owed" "i < length (invocations s)" "0 < owed i"
    and "handleQueries_body E i key q s = Inr s'"
  shows "qinv s' (owed(i := owed i - 1))"
  using assms(4)
proof (cases rule: body_cases)
  case (cached results)
  have "qinv (s\<lparr>fauxInstances := (fauxInstances s)[faux (invocations s ! i) :=
              (fauxInstances s ! faux (invocations s ! i))
              \<lparr>props_results := Some (obj_put results key (obj_get (queryResults s) (resultKey_of E (consumer_of s i) key q)))\<rparr>]\<rparr>) owed"
    by (rule qinv_frame[OF assms(1), where us = "[]"]) (auto simp: map_update_same)
  then show ?thesis
    by (rule clear_qinv) (use assms(2,3) cached(3) in auto)
next
  case (joined p a)
  have 1: "qinv (s\<lparr>log := log s @ wait_hooks p\<rparr>) owed"
    by (rule qinv_frame[OF assms(1), where us = "wait_hooks p"])
       (use called_only_notin[OF called_only_wait_hooks] in auto)
  show ?thesis
    by (rule join_qinv[OF 1, where a = a and rk = "resultKey_of E (consumer_of s i) key q" and key = key])
       (use assms(2,3) joined in auto)
next
  case (later p handler keys)
  show ?thesis by (rule cold_qinv[OF assms(1,2,3) later(3,5)])
next
  case (now p handler keys v)
  define s2 where "s2 = (cold_state E i key q p keys s)\<lparr>in_flight := in_flight s @ [length (resultHandlers s)]\<rparr>"
  have q2: "qinv s2 (owed(i := owed i - 1))"
    by (rule cold_qinv[OF assms(1,2,3) now(3) s2_def])
  from assms(1) have "\<forall>b \<in> set (in_flight s). b < length (resultHandlers s)"
    unfolding qinv_def pending_ok_def by blast
  then have "length (resultHandlers s) \<notin> set (in_flight s)" by auto
  from complete_in_flight[OF this, of E v "cold_state E i key q p keys s"]
  have "complete E (length (resultHandlers s)) v s2 = Inr s'"
    using now(5) by (simp add: s2_def cold_state_def Let_def)
  moreover have "length (resultHandlers s) \<in> set (in_flight s2)" by (simp add: s2_def)
  ultimately show ?thesis using q2 complete_qinv by blast
qed

lemma run_resultHandler_length:
  assumes "run_resultHandler E h v s = Inr s'"
  shows "length (invocations s') = length (invocations s)"
  using assms by (elim run_resultHandler_split) (auto dest: clear_effect(1))

lemma drain_length:
  "drain E hs v s = Inr s' \<Longrightarrow> length (invocations s') = length (invocations s)"
proof (induction hs arbitrary: s)
  case Nil
  then show ?case by simp
next
  case (Cons h hs)
  from Cons.prems obtain s1 where r: "run_resultHandler E h v s = Inr s1"
    and d: "drain E hs v s1 = Inr s'"
    by (auto simp: thenE_def split: sum.splits)
  from Cons.IH[OF d] run_resultHandler_length[OF r] show ?case by simp
qed

lemma complete_length:
  assumes "complete E a v s = Inr s'"
  shows "length (invocations s') = length (invocations s)"
  using drain_length[of E "snd (resultHandlers s ! a)" v _ s'] assms
  by (simp add: complete_def Let_def)

lemma body_length:
  assumes "handleQueries_body E i key q s = Inr s'"
  shows "length (invocations s') = length (invocations s)"
  using assms
proof (cases rule: body_cases)
  case (cached results)
  from clear_effect(1)[OF cached(3)] show ?thesis by simp
next
  case (joined p a)
  then show ?thesis by simp
next
  case (later p handler keys)
  then show ?thesis by (simp add: cold_state_def Let_def)
next
  case (now p handler keys v)
  from complete_length[OF now(5)] show ?thesis by (simp add: cold_state_def Let_def)
qed

lemma loop_qinv:
  assumes "qinv s owed" "i < length (invocations s)" "length qs \<le> owed i"
    and "handleQueries_loop E i qs s = Inr s'"
  shows "qinv s' (owed(i := owed i - length qs)) \<and> length (invocations s') = length (invocations s)"
  using assms
proof (induction qs arbitrary: s owed)
  case Nil
  then show ?case by simp
next
  case (Cons kq qs)
  obtain key q where kq: "kq = (key, q)" by (cases kq)
  from Cons.prems(4) obtain s1 where b: "handleQueries_body E i key q s = Inr s1"
    and l: "handleQueries_loop E i qs s1 = Inr s'"
    by (auto simp: kq thenE_def split: sum.splits)
  from Cons.prems(3) have pos: "0 < owed i" by simp
  have q1: "qinv s1 (owed(i := owed i - 1))"
    by (rule body_qinv[OF Cons.prems(1,2) pos b])
  have len: "length (invocations s1) = length (invocations s)" by (rule body_length[OF b])
  have A: "qinv s' ((owed(i := owed i - 1))(i := (owed(i := owed i - 1)) i - length qs)) \<and>
      length (invocations s') = length (invocations s1)"
    by (rule Cons.IH[OF q1 _ _ l]) (use Cons.prems(2,3) len in auto)
  have eq: "(owed(i := owed i - 1))(i := (owed(i := owed i - 1)) i - length qs)
      = owed(i := owed i - length (kq # qs))"
    by (auto simp: fun_eq_iff)
  from A have "qinv s' (owed(i := owed i - length (kq # qs)))" unfolding eq by blast
  moreover from A len have "length (invocations s') = length (invocations s)" by simp
  ultimately show ?case by blast
qed

lemma handler_count_zero:
  assumes "refs_ok s" "length (invocations s) \<le> i"
  shows "handler_count s i = 0"
proof -
  have "\<forall>p \<in> set (resultHandlers s). filter (\<lambda>h. h_inv h = i) (snd p) = []"
    using assms unfolding refs_ok_def by (fastforce simp: filter_empty_conv)
  then show ?thesis by (simp add: handler_count_def)
qed

lemma begin_invocation_qinv:
  assumes "qinv s (\<lambda>_. 0)" "f < length (fauxInstances s)"
    and q: "queries (fauxInstances s ! f) = Some qs"
  shows "qinv (begin_invocation f cb qs s) ((\<lambda>_. 0)(length (invocations s) := length qs))"
proof -
  define s1 where "s1 = begin_invocation f cb qs s"
  define i where "i = length (invocations s)"
  from assms(1) have r: "refs_ok s" and p: "pending_ok s" and c: "counters_ok s (\<lambda>_. 0)"
    unfolding qinv_def by blast+
  have inv1: "invocations s1 = invocations s @ [\<lparr>faux = f, semaphore = int (length qs),
         previousResults = (case props_results (fauxInstances s ! f) of Some r \<Rightarrow> r | None \<Rightarrow> []),
         callback = cb\<rparr>]"
    and arr1: "resultHandlers s1 = resultHandlers s"
    and act1: "activeQueries s1 = activeQueries s"
    and fl1: "in_flight s1 = in_flight s"
    and log1: "log s1 = log s"
    and len1: "length (fauxInstances s1) = length (fauxInstances s)"
    and q1: "map queries (fauxInstances s1) = map queries (fauxInstances s)"
    by (simp_all add: s1_def begin_invocation_def Let_def map_update_same)
  have r1: "refs_ok s1"
    using r assms(2) unfolding refs_ok_def inv1 arr1 log1 len1 by (auto simp: less_Suc_eq)
  have p1: "pending_ok s1"
    using p unfolding pending_ok_def arr1 act1 fl1 by blast
  have qq: "\<And>k. k < length (fauxInstances s) \<Longrightarrow>
      queries (fauxInstances s1 ! k) = queries (fauxInstances s ! k)"
    using map_eq_nth[OF q1] len1 by simp
  have hc: "\<And>j. handler_count s1 j = handler_count s j"
    by (simp add: handler_count_def arr1)
  have c1: "counters_ok s1 ((\<lambda>_. 0)(i := length qs))"
  proof (rule counters_okI)
    fix j assume "j < length (invocations s1)"
    then have "j < i \<or> j = i" by (auto simp: inv1 i_def)
    then show "semaphore (invocations s1 ! j) = int (handler_count s1 j + ((\<lambda>_. 0)(i := length qs)) j) \<and>
      (semaphore (invocations s1 ! j) = 0 \<or>
         queries (fauxInstances s1 ! faux (invocations s1 ! j)) \<noteq> Some []) \<and>
      (\<forall>cb. count_list (log s1) (Callback j cb) =
           (if semaphore (invocations s1 ! j) = 0 \<and> callback (invocations s1 ! j) = Some cb \<and>
               queries (fauxInstances s1 ! faux (invocations s1 ! j)) \<noteq> Some []
            then 1 else 0))"
    proof
      assume j: "j < i"
      then have j': "j < length (invocations s)" by (simp add: i_def)
      have n: "invocations s1 ! j = invocations s ! j" using j' by (simp add: inv1 nth_append)
      have fj: "faux (invocations s ! j) < length (fauxInstances s)"
        using r j' unfolding refs_ok_def by (metis nth_mem)
      show ?thesis unfolding n hc log1 qq[OF fj]
        using counters_okD[OF c j'] j by auto
    next
      assume j: "j = i"
      have n: "invocations s1 ! i = \<lparr>faux = f, semaphore = int (length qs),
         previousResults = (case props_results (fauxInstances s ! f) of Some r \<Rightarrow> r | None \<Rightarrow> []),
         callback = cb\<rparr>" by (simp add: inv1 i_def)
      have h0: "handler_count s i = 0" by (rule handler_count_zero[OF r]) (simp add: i_def)
      have c0: "\<And>cb. count_list (log s) (Callback i cb) = 0"
        using r unfolding refs_ok_def i_def by (auto simp: count_list_0_iff)
      show ?thesis unfolding j n hc log1
        using h0 c0 q qq[OF assms(2)] by auto
    qed
  qed
  from r1 p1 c1 show ?thesis unfolding qinv_def s1_def i_def by blast
qed

lemma handleQueries_qinv:
  assumes "qinv s (\<lambda>_. 0)" "f < length (fauxInstances s)"
    and "handleQueries E f cb s = Inr (b, s')"
  shows "qinv s' (\<lambda>_. 0)"
proof (cases "queries (fauxInstances s ! f)")
  case None
  with assms(3) have s': "s' = (case cb of Some fn \<Rightarrow> s\<lparr>log := log s @ [Called fn []]\<rparr> | None \<Rightarrow> s)"
    by (simp add: handleQueries_def)
  show ?thesis
  proof (cases cb)
    case None
    with s' assms(1) show ?thesis by simp
  next
    case (Some fn)
    show ?thesis
      by (rule qinv_frame[OF assms(1), where us = "[Called fn []]"]) (simp_all add: s' Some)
  qed
next
  case (Some qs)
  with assms(3) have l: "handleQueries_loop E (length (invocations s)) qs (begin_invocation f cb qs s) = Inr s'"
    by (auto simp: handleQueries_def thenE_def split: sum.splits)
  have 1: "qinv (begin_invocation f cb qs s) ((\<lambda>_. 0)(length (invocations s) := length qs))"
    by (rule begin_invocation_qinv[OF assms(1,2) Some])
  have li: "length (invocations s) < length (invocations (begin_invocation f cb qs s))"
    by (simp add: begin_invocation_def Let_def)
  have lq: "length qs \<le> ((\<lambda>_. 0)(length (invocations s) := length qs)) (length (invocations s))"
    by simp
  have A: "qinv s' (((\<lambda>_. 0)(length (invocations s) := length qs))
      (length (invocations s) := ((\<lambda>_. 0)(length (invocations s) := length qs)) (length (invocations s)) - length qs))"
    using loop_qinv[OF 1 li lq l] by blast
  have eq: "((\<lambda>_. 0)(length (invocations s) := length qs))
      (length (invocations s) := ((\<lambda>_. 0)(length (invocations s) := length qs)) (length (invocations s)) - length qs)
      = (\<lambda>_. 0::nat)"
    by (auto simp: fun_eq_iff)
  from A show ?thesis unfolding eq .
qed

lemma qstep_qinv:
  assumes "qinv s (\<lambda>_. 0)" "qstep E s ev = Some s'"
  shows "qinv s' (\<lambda>_. 0)"
proof (cases ev)
  case (Invoke f cb)
  with assms(2) obtain b where "f < length (fauxInstances s)" "handleQueries E f cb s = Inr (b, s')"
    by (auto simp: qstep_def split: if_splits sum.splits)
  with assms(1) show ?thesis using handleQueries_qinv by blast
next
  case (Respond a v)
  with assms(2) have "a \<in> set (in_flight s)" "complete E a v s = Inr s'"
    by (auto simp: qstep_def split: if_splits sum.splits)
  with assms(1) show ?thesis using complete_qinv by blast
qed

lemma qrun_qinv:
  "qinv s (\<lambda>_. 0) \<Longrightarrow> qrun E s evs = Some s' \<Longrightarrow> qinv s' (\<lambda>_. 0)"
proof (induction evs arbitrary: s)
  case Nil
  then show ?case by simp
next
  case (Cons ev evs)
  from Cons.prems(2) obtain s1 where 1: "qstep E s ev = Some s1" and 2: "qrun E s1 evs = Some s'"
    by (auto split: option.splits)
  from Cons.IH[OF qstep_qinv[OF Cons.prems(1) 1] 2] show ?case .
qed

lemma qinit_qinv: "qinv (qinit ps cs) (\<lambda>_. 0)"
  by (simp add: qinv_def qinit_def refs_ok_def pending_ok_def counters_ok_def)

section \<open>Properties of getQueryHandler and handleQueries\<close>

lemma first_handleQuery_None:
  "first_handleQuery rs = None \<longleftrightarrow> (\<forall>r \<in> set rs. handleQuery r = None)"
  by (induction rs) (auto split: option.splits)

lemma first_handleQuery_Some:
  "first_handleQuery rs = Some h \<Longrightarrow> \<exists>r \<in> set rs. handleQuery r \<noteq> None"
  by (induction rs) (auto split: option.splits)

lemma getQueryHandler_loop_None:
  "getQueryHandler_loop p rs = None \<longleftrightarrow>
   (\<forall>rep \<in> set (concat (map (\<lambda>r. case replicator r of None \<Rightarrow> [] | Some reps \<Rightarrow> as_array reps) rs)).
      handleQuery rep = None)"
proof (induction rs)
  case Nil
  then show ?case by simp
next
  case (Cons r rs)
  show ?case
  proof (cases "replicator r")
    case None
    with Cons show ?thesis by simp
  next
    case (Some reps)
    show ?thesis
    proof (cases "first_handleQuery (as_array reps)")
      case None
      with Some Cons first_handleQuery_None[of "as_array reps"] show ?thesis by auto
    next
      case (Some h)
      from first_handleQuery_Some[OF this] Some \<open>replicator r = Some reps\<close>
      show ?thesis by auto
    qed
  qed
qed

lemma getQueryHandler_None:
  "getQueryHandler p = None \<longleftrightarrow> (\<forall>rep \<in> set (replicators_of p). handleQuery rep = None)"
  by (cases "replication p") (simp_all add: getQueryHandler_def replicators_of_def getQueryHandler_loop_None)

lemma loop_append:
  "handleQueries_loop E i (pre @ post) s = thenE (handleQueries_loop E i pre s) (handleQueries_loop E i post)"
  by (induction pre arbitrary: s) (auto simp: thenE_def split: sum.splits)

text \<open>
  C9. When the loop of \<^verbatim>\<open>handleQueries\<close> comes to a provider whose sub-query is
  neither cached nor pending (the cold path) and no replicator of the provider's
  replication tree has a \<^verbatim>\<open>handleQuery\<close>, then \<^verbatim>\<open>getQueryHandler\<close> returns
  \<^verbatim>\<open>null\<close> and \<^verbatim>\<open>handleQueries\<close> throws: destructuring the
  \<^verbatim>\<open>null\<close> is a TypeError, the only error this file can raise. It does not return
  silently.
\<close>

theorem handleQueries_missing_handler:
  assumes "queries (fauxInstances s ! f) = Some (pre @ (key, q) # rest)"
    and "handleQueries_loop E (length (invocations s)) pre
           (begin_invocation f cb (pre @ (key, q) # rest) s) = Inr s1"
    and "typeof (obj_get (queryResults s1) (resultKey_of E (consumer_of s1 (length (invocations s))) key q)) = ''undefined''"
    and "map_of (activeQueries s1) (resultKey_of E (consumer_of s1 (length (invocations s))) key q) = None"
    and "map_of (providers s1) key = Some p"
    and "\<forall>rep \<in> set (replicators_of p). handleQuery rep = None"
  shows "getQueryHandler p = None \<and>
         handleQueries_body E (length (invocations s)) key q s1 = Inl TypeError \<and>
         handleQueries E f cb s = Inl TypeError"
proof -
  from assms(6) have g: "getQueryHandler p = None" by (simp add: getQueryHandler_None)
  have b: "handleQueries_body E (length (invocations s)) key q s1 = Inl TypeError"
    using assms(3,4,5) g by (simp add: handleQueries_body_def resultKey_of_def Let_def)
  have "handleQueries_loop E (length (invocations s)) (pre @ (key, q) # rest)
          (begin_invocation f cb (pre @ (key, q) # rest) s) = Inl TypeError"
    by (simp add: loop_append assms(2) b thenE_def)
  with assms(1) have "handleQueries E f cb s = Inl TypeError"
    by (simp add: handleQueries_def thenE_def)
  with g b show ?thesis by blast
qed

lemmas example_simps =
  qinit_def example_env_def example_consumer_def example_provider_def begin_invocation_def
  handleQueries_body_def handleQueries_def handleQueries_clear_def resultKey_of_def choose_options_def
  obj_get_def thenE_def getQueryHandler_def replicators_of_def wait_hooks_def clear_hooks_def
  with_select_def store_options_def complete_def run_resultHandler_def callback_events_def
  obj_delete_def Let_def

theorem handleQueries_missing_handler_witness:
  "queries (fauxInstances
      (qinit [(''A'', example_provider None)] [example_consumer (Some [(''A'', JObj [(''x'', JNum 1)])])]) ! 0)
     = Some ([] @ (''A'', JObj [(''x'', JNum 1)]) # []) \<and>
   map_of (providers
      (qinit [(''A'', example_provider None)] [example_consumer (Some [(''A'', JObj [(''x'', JNum 1)])])])) ''A''
     = Some (example_provider None) \<and>
   list_all (\<lambda>rep. handleQuery rep = None) (replicators_of (example_provider None)) \<and>
   getQueryHandler (example_provider None) = None \<and>
   handleQueries example_env 0 (Some (Hook 7))
     (qinit [(''A'', example_provider None)] [example_consumer (Some [(''A'', JObj [(''x'', JNum 1)])])])
   = Inl TypeError"
  using handleQueries_missing_handler
    [of "qinit [(''A'', example_provider None)] [example_consumer (Some [(''A'', JObj [(''x'', JNum 1)])])]"
        0 "[]" "''A''" "JObj [(''x'', JNum 1)]" "[]" example_env "Some (Hook 7)"
        "begin_invocation 0 (Some (Hook 7)) [(''A'', JObj [(''x'', JNum 1)])]
           (qinit [(''A'', example_provider None)] [example_consumer (Some [(''A'', JObj [(''x'', JNum 1)])])])"
        "example_provider None"]
  by (simp add: example_simps)

lemma refs_okD:
  assumes "refs_ok s" "i < length (invocations s)"
  shows "faux (invocations s ! i) < length (fauxInstances s)"
  using assms unfolding refs_ok_def by (metis nth_mem)

lemma run_resultHandler_received:
  assumes r: "refs_ok s" and i: "h_inv h < length (invocations s)"
    and run: "run_resultHandler E h v s = Inr s'"
  shows "received s' h v"
    and "h_inv h2 < length (invocations s) \<Longrightarrow> received s h2 v \<Longrightarrow> received s' h2 v"
proof -
  define f where "f = faux (invocations s ! h_inv h)"
  from run obtain results s1 s2 p where
    res: "props_results (fauxInstances s ! f) = Some results"
    and s1: "s1 = s\<lparr>fauxInstances := (fauxInstances s)[f :=
              (if \<not> truthy (doUpdate (fauxInstances s ! f)) \<and>
                  \<not> shallowEqual E v (obj_get (previousResults (invocations s ! h_inv h)) (h_key h))
               then (fauxInstances s ! f)\<lparr>doUpdate := JBool True\<rparr>
               else fauxInstances s ! f)
              \<lparr>props_results := Some (obj_put results (h_key h) v)\<rparr>],
            queryResults := obj_put (queryResults s) (h_resultKey h) v\<rparr>"
    and cl: "handleQueries_clear E (h_inv h) s1 = Inr s2"
    and s': "s' = s2\<lparr>log := log s2 @ clear_hooks p (doUpdate (fauxInstances s2 ! f))\<rparr>"
    unfolding f_def by (rule run_resultHandler_split)
  note e = clear_effect[OF cl]
  have f: "f < length (fauxInstances s)" unfolding f_def by (rule refs_okD[OF r i])
  have fx: "\<And>j. j < length (invocations s) \<Longrightarrow> faux (invocations s' ! j) = faux (invocations s ! j)"
  proof -
    fix j assume "j < length (invocations s)"
    then show "faux (invocations s' ! j) = faux (invocations s ! j)"
      using i by (cases "j = h_inv h") (simp_all add: s' e(1) s1)
  qed
  have pr: "\<And>k. k < length (fauxInstances s) \<Longrightarrow>
      props_results (fauxInstances s' ! k) = props_results (fauxInstances s1 ! k)"
    using map_eq_nth[OF e(9)] e(7) by (simp add: s' s1)
  have new: "props_results (fauxInstances s1 ! f) = Some (obj_put results (h_key h) v)"
    using f by (simp add: s1)
  show "received s' h v"
    unfolding received_def fx[OF i] f_def[symmetric] pr[OF f] new
    by (simp add: map_of_obj_put)
  assume i2: "h_inv h2 < length (invocations s)" and rec: "received s h2 v"
  have f2: "faux (invocations s ! h_inv h2) < length (fauxInstances s)" by (rule refs_okD[OF r i2])
  show "received s' h2 v"
  proof (cases "faux (invocations s ! h_inv h2) = f")
    case True
    from rec res True have "map_of results (h_key h2) = Some v" by (simp add: received_def)
    then show ?thesis
      unfolding received_def fx[OF i2] True pr[OF f] new by (simp add: map_of_obj_put)
  next
    case False
    then have "props_results (fauxInstances s1 ! faux (invocations s ! h_inv h2))
        = props_results (fauxInstances s ! faux (invocations s ! h_inv h2))"
      by (simp add: s1)
    with rec show ?thesis unfolding received_def fx[OF i2] pr[OF f2] by simp
  qed
qed

lemma run_resultHandler_refs_ok:
  assumes "qinv s owed" "h_inv h < length (invocations s)" "0 < owed (h_inv h)"
    and "run_resultHandler E h v s = Inr s'"
  shows "refs_ok s'"
  using run_resultHandler_qinv[OF assms] unfolding qinv_def by blast

lemma drain_received:
  assumes "qinv s (\<lambda>j. owed j + handlers_of hs j)"
    and "\<forall>h \<in> set hs. h_inv h < length (invocations s)"
    and "drain E hs v s = Inr s'"
  shows "(\<forall>h \<in> set hs. received s' h v) \<and>
         (\<forall>h. h_inv h < length (invocations s) \<and> received s h v \<longrightarrow> received s' h v)"
  using assms
proof (induction hs arbitrary: s)
  case Nil
  then show ?case by simp
next
  case (Cons h hs)
  from Cons.prems(3) obtain s1 where r: "run_resultHandler E h v s = Inr s1"
    and d: "drain E hs v s1 = Inr s'"
    by (auto simp: thenE_def split: sum.splits)
  have pos: "0 < owed (h_inv h) + handlers_of (h # hs) (h_inv h)"
    by (simp add: handlers_of_def)
  have hi: "h_inv h < length (invocations s)" using Cons.prems(2) by simp
  have ro: "refs_ok s" using Cons.prems(1) unfolding qinv_def by blast
  have "qinv s1 ((\<lambda>j. owed j + handlers_of (h # hs) j)
      (h_inv h := owed (h_inv h) + handlers_of (h # hs) (h_inv h) - 1))"
    by (rule run_resultHandler_qinv[OF Cons.prems(1) hi pos r])
  moreover have "(\<lambda>j. owed j + handlers_of (h # hs) j)
      (h_inv h := owed (h_inv h) + handlers_of (h # hs) (h_inv h) - 1) = (\<lambda>j. owed j + handlers_of hs j)"
    by (auto simp: fun_eq_iff handlers_of_def)
  ultimately have q1: "qinv s1 (\<lambda>j. owed j + handlers_of hs j)" by simp
  have len: "length (invocations s1) = length (invocations s)"
    by (rule run_resultHandler_length[OF r])
  have v1: "\<forall>h \<in> set hs. h_inv h < length (invocations s1)" using Cons.prems(2) len by simp
  from Cons.IH[OF q1 v1 d]
  have IH1: "\<forall>h \<in> set hs. received s' h v"
    and IH2: "\<forall>h. h_inv h < length (invocations s1) \<and> received s1 h v \<longrightarrow> received s' h v"
    by blast+
  have a: "received s1 h v" by (rule run_resultHandler_received(1)[OF ro hi r])
  have b: "\<And>h2. h_inv h2 < length (invocations s) \<Longrightarrow> received s h2 v \<Longrightarrow> received s1 h2 v"
    by (rule run_resultHandler_received(2)[OF ro hi r])
  show ?case
  proof (intro conjI ballI allI impI)
    fix h' assume "h' \<in> set (h # hs)"
    then show "received s' h' v" using IH1 IH2 a hi len by auto
  next
    fix h' assume "h_inv h' < length (invocations s) \<and> received s h' v"
    then show "received s' h' v" using IH2 b len by auto
  qed
qed

lemma qrun_reachable: "qrun E (qinit ps cs) evs = Some s \<Longrightarrow> qinv s (\<lambda>_. 0)"
  by (rule qrun_qinv[OF qinit_qinv])

lemma in_flight_keys_distinct:
  assumes "pending_ok s"
  shows "distinct (map (\<lambda>a. fst (resultHandlers s ! a)) (in_flight s))"
proof -
  have "inj_on (\<lambda>a. fst (resultHandlers s ! a)) (set (in_flight s))"
  proof (rule inj_onI)
    fix a b assume a: "a \<in> set (in_flight s)" and b: "b \<in> set (in_flight s)"
      and eq: "fst (resultHandlers s ! a) = fst (resultHandlers s ! b)"
    from pending_okD2(2)[OF assms a] pending_okD2(2)[OF assms b] eq show "a = b"
      by (metis option.inject)
  qed
  moreover from assms have "distinct (in_flight s)" unfolding pending_ok_def by blast
  ultimately show ?thesis by (simp add: distinct_map)
qed

lemma active_iff_in_flight:
  assumes "pending_ok s"
  shows "(map_of (activeQueries s) rk \<noteq> None) = (\<exists>a \<in> set (in_flight s). fst (resultHandlers s ! a) = rk)"
proof
  assume "map_of (activeQueries s) rk \<noteq> None"
  then obtain a where "map_of (activeQueries s) rk = Some a" by auto
  then have "(rk, a) \<in> set (activeQueries s)" by (rule map_of_SomeD)
  from pending_okD1(1,3)[OF assms this] show "\<exists>a \<in> set (in_flight s). fst (resultHandlers s ! a) = rk"
    by auto
next
  assume "\<exists>a \<in> set (in_flight s). fst (resultHandlers s ! a) = rk"
  then obtain a where a: "a \<in> set (in_flight s)" and k: "fst (resultHandlers s ! a) = rk" by blast
  from pending_okD2(2)[OF assms a] k show "map_of (activeQueries s) rk \<noteq> None" by simp
qed

lemma body_join:
  assumes "typeof (obj_get (queryResults t) (resultKey_of E (consumer_of t i) key q)) = ''undefined''"
    and "map_of (providers t) key = Some p"
    and "map_of (activeQueries t) (resultKey_of E (consumer_of t i) key q) = Some a"
  shows "handleQueries_body E i key q t =
     Inr (t\<lparr>log := log t @ wait_hooks p,
            resultHandlers := (resultHandlers t)[a := (fst (resultHandlers t ! a),
               snd (resultHandlers t ! a) @ [ResultHandler i key (resultKey_of E (consumer_of t i) key q)])]\<rparr>)"
  using assms by (simp add: handleQueries_body_def resultKey_of_def Let_def)

lemma complete_received:
  assumes "qinv s (\<lambda>_. 0)" "a \<in> set (in_flight s)" "complete E a v s = Inr s'"
    and "h \<in> set (snd (resultHandlers s ! a))"
  shows "received s' h v"
proof -
  define rk where "rk = fst (resultHandlers s ! a)"
  define hs where "hs = snd (resultHandlers s ! a)"
  define s1 where "s1 = s\<lparr>activeQueries := obj_delete (activeQueries s) rk,
                 resultHandlers := (resultHandlers s)[a := (rk, [])],
                 in_flight := removeAll a (in_flight s)\<rparr>"
  from assms(3) have d: "drain E hs v s1 = Inr s'"
    by (simp add: complete_def Let_def rk_def hs_def s1_def)
  have 1: "qinv s1 (\<lambda>j. 0 + handlers_of hs j)"
    unfolding s1_def hs_def rk_def by (rule complete_prepare(1)[OF assms(1,2)])
  have 2: "\<forall>h \<in> set hs. h_inv h < length (invocations s1)"
    using complete_prepare(2)[OF assms(1,2)] by (simp add: s1_def hs_def)
  from drain_received[OF 1 2 d] assms(4) show ?thesis unfolding hs_def by blast
qed


lemma drain_Inl:
  "drain E hs v s = Inl e \<Longrightarrow>
   \<exists>pre h post s2. hs = pre @ h # post \<and> drain E pre v s = Inr s2 \<and>
     run_resultHandler E h v s2 = Inl e"
proof (induction hs arbitrary: s)
  case Nil
  then show ?case by simp
next
  case (Cons h hs)
  show ?case
  proof (cases "run_resultHandler E h v s")
    case (Inl e')
    with Cons.prems have "e' = e" by (simp add: thenE_def)
    with Inl have "h # hs = [] @ h # hs \<and> drain E [] v s = Inr s \<and> run_resultHandler E h v s = Inl e"
      by simp
    then show ?thesis by blast
  next
    case (Inr s1)
    with Cons.prems have "drain E hs v s1 = Inl e" by (simp add: thenE_def)
    from Cons.IH[OF this] obtain pre h' post s2 where
      "hs = pre @ h' # post" "drain E pre v s1 = Inr s2" "run_resultHandler E h' v s2 = Inl e"
      by blast
    with Inr have "h # hs = (h # pre) @ h' # post \<and> drain E (h # pre) v s = Inr s2 \<and>
        run_resultHandler E h' v s2 = Inl e"
      by (simp add: thenE_def)
    then show ?thesis by blast
  qed
qed

lemma handlers_of_append: "handlers_of (xs @ ys) j = handlers_of xs j + handlers_of ys j"
  by (simp add: handlers_of_def)

lemma complete_throws:
  assumes "qinv s (\<lambda>_. 0)" "a \<in> set (in_flight s)" "complete E a v s = Inl e"
  shows "\<exists>pre h post s2. snd (resultHandlers s ! a) = pre @ h # post \<and>
           drain E pre v
             (s\<lparr>activeQueries := obj_delete (activeQueries s) (fst (resultHandlers s ! a)),
                resultHandlers := (resultHandlers s)[a := (fst (resultHandlers s ! a), [])],
                in_flight := removeAll a (in_flight s)\<rparr>) = Inr s2 \<and>
           (\<forall>h' \<in> set pre. received s2 h' v) \<and>
           run_resultHandler E h v s2 = Inl e"
proof -
  define s1 where "s1 = s\<lparr>activeQueries := obj_delete (activeQueries s) (fst (resultHandlers s ! a)),
                resultHandlers := (resultHandlers s)[a := (fst (resultHandlers s ! a), [])],
                in_flight := removeAll a (in_flight s)\<rparr>"
  define hs where "hs = snd (resultHandlers s ! a)"
  from assms(3) have "drain E hs v s1 = Inl e"
    by (simp add: complete_def Let_def s1_def hs_def)
  from drain_Inl[OF this] obtain pre h post s2 where
    hs: "hs = pre @ h # post" and d: "drain E pre v s1 = Inr s2"
    and r: "run_resultHandler E h v s2 = Inl e" by blast
  have "qinv s1 (\<lambda>j. 0 + handlers_of hs j)"
    unfolding s1_def hs_def by (rule complete_prepare(1)[OF assms(1,2)])
  then have 1: "qinv s1 (\<lambda>j. handlers_of (h # post) j + handlers_of pre j)"
    by (simp add: hs handlers_of_append add.commute)
  have 2: "\<forall>h \<in> set pre. h_inv h < length (invocations s1)"
    using complete_prepare(2)[OF assms(1,2)] by (simp add: s1_def hs_def[symmetric] hs)
  from drain_received[OF 1 2 d] have "\<forall>h' \<in> set pre. received s2 h' v" by blast
  with hs d r show ?thesis unfolding s1_def hs_def by blast
qed


lemmas run_simps = example_two_consumers_def example_simps qstep_def example_later_def example_now_def
  digit_char_def key_before_def array_index_def digit_val_def is_HandleQuery_def received_def

lemma example_joined_run:
  "qrun example_env example_two_consumers [Invoke 0 (Some (Hook 7)), Invoke 1 (Some (Hook 8))]
   = Some example_joined"
  unfolding example_joined_def by (simp add: run_simps)

lemma example_joined_facts:
  "in_flight example_joined = [0]"
  "map (\<lambda>p. length (snd p)) (resultHandlers example_joined) = [2]"
  "length (filter is_HandleQuery (log example_joined)) = 1"
  "map h_inv (snd (resultHandlers example_joined ! 0)) = [0, 1]"
  unfolding example_joined_def by (simp_all add: run_simps)


lemma example_joined_complete:
  "complete example_env 0 (JNum 5) example_joined
   = Inr (projr (complete example_env 0 (JNum 5) example_joined))"
  unfolding example_joined_def by (simp add: run_simps)

lemmas flat_simps = example_flat_def example_flat_consumer_def example_simps qstep_def
  example_later_def example_now_def digit_char_def key_before_def array_index_def digit_val_def
  received_def getMergedResult_def merge_result_def or_else_def assign_def
  example_babel_env_def toConsumableArray_def example_toLength_def

lemma example_flat_joined_run:
  "qrun example_env example_flat [Invoke 0 None, Invoke 1 None, Respond 0 (JObj [(''a'', JNum 1)])]
   = Some example_flat_joined"
  "qrun example_babel_env example_flat [Invoke 0 None, Invoke 1 None, Respond 0 (JObj [(''a'', JNum 1)])]
   = Some example_flat_joined"
  unfolding example_flat_joined_def by (simp_all add: flat_simps)

lemma example_flat_joined_facts:
  "in_flight example_flat_joined = [1]"
  "map h_inv (snd (resultHandlers example_flat_joined ! 1)) = [0, 1]"
  "map h_key (snd (resultHandlers example_flat_joined ! 1)) = [''B'', ''B'']"
  "map faux (invocations example_flat_joined) = [0, 1]"
  "map props_results (fauxInstances example_flat_joined) = [Some [(''A'', JObj [(''a'', JNum 1)])], Some []]"
  unfolding example_flat_joined_def by (simp_all add: flat_simps)

lemma example_flat_joined_complete:
  "complete example_env 1 (JArr [JNum 9]) example_flat_joined = Inl TypeError"
  "complete example_babel_env 1 (JArr [JNum 9]) example_flat_joined
   = Inr (projr (complete example_babel_env 1 (JArr [JNum 9]) example_flat_joined))"
  "qrun example_env example_flat
     [Invoke 0 None, Invoke 1 None, Respond 0 (JObj [(''a'', JNum 1)]), Respond 1 (JArr [JNum 9])] = None"
  unfolding example_flat_joined_def by (simp_all add: flat_simps)




lemma clear_merged:
  assumes "handleQueries_clear E i s = Inr s'"
    and "i < length (invocations s)"
    and "faux (invocations s ! i) < length (fauxInstances s)"
    and "semaphore (invocations s ! i) = 1"
    and "truthy (query (fauxInstances s ! faux (invocations s ! i)))"
    and "props_results (fauxInstances s ! faux (invocations s ! i)) = Some r"
  shows "getMergedResult E (JObj r) = Inr (props_result (fauxInstances s' ! faux (invocations s ! i)))"
  using assms
  by (auto simp: handleQueries_clear_def Let_def thenE_def split: sum.splits if_splits option.splits)


lemma example_flat_pending_run:
  "run_resultHandler example_env (hd (snd (resultHandlers example_flat_pending ! 0))) (JArr [JNum 1])
     example_flat_pending =
   Inr (projr (run_resultHandler example_env (hd (snd (resultHandlers example_flat_pending ! 0)))
          (JArr [JNum 1]) example_flat_pending))"
  unfolding example_flat_pending_def by (simp add: flat_simps)

lemma example_flat_pending_facts:
  "h_inv (hd (snd (resultHandlers example_flat_pending ! 0))) = 0"
  "h_key (hd (snd (resultHandlers example_flat_pending ! 0))) = ''A''"
  "length (invocations example_flat_pending) = 1"
  "faux (invocations example_flat_pending ! 0) = 0"
  "length (fauxInstances example_flat_pending) = 2"
  "props_results (fauxInstances example_flat_pending ! 0) = Some [(''B'', JArr [JNum 2])]"
  "semaphore (invocations example_flat_pending ! 0) = 1"
  "truthy (query (fauxInstances example_flat_pending ! 0))"
  "map fst (the (queries (fauxInstances example_flat_pending ! 0))) = [''A'', ''B'']"
  unfolding example_flat_pending_def by (simp_all add: flat_simps)





section \<open>Properties of instantiateProvider\<close>

lemma emit_simps [simp]:
  "plog (emit es s) = plog s @ es"
  "objects (emit es s) = objects s"
  "definitions (emit es s) = definitions s"
  "tables (emit es s) = tables s"
  "globalProviderInstances (emit es s) = globalProviderInstances s"
  "callers (emit es s) = callers s"
  "gatherings (emit es s) = gatherings s"
  by (simp_all add: emit_def)

lemma update_object_simps [simp]:
  "objects (update_object i g s) = (objects s)[i := g (objects s ! i)]"
  "plog (update_object i g s) = plog s"
  "definitions (update_object i g s) = definitions s"
  "tables (update_object i g s) = tables s"
  "globalProviderInstances (update_object i g s) = globalProviderInstances s"
  "callers (update_object i g s) = callers s"
  "gatherings (update_object i g s) = gatherings s"
  by (simp_all add: update_object_def)

lemma update_definition_simps [simp]:
  "definitions (update_definition pk g s) =
     map (\<lambda>(k, d). if k = pk then (k, g d) else (k, d)) (definitions s)"
  "plog (update_definition pk g s) = plog s"
  "objects (update_definition pk g s) = objects s"
  "tables (update_definition pk g s) = tables s"
  "globalProviderInstances (update_definition pk g s) = globalProviderInstances s"
  "callers (update_definition pk g s) = callers s"
  "gatherings (update_definition pk g s) = gatherings s"
  by (simp_all add: update_definition_def)

lemma map_of_update_definition:
  "map_of (map (\<lambda>(k, d). if k = pk then (k, g d) else (k, d)) ds) k' =
     (if k' = pk then map_option g (map_of ds pk) else map_of ds k')"
  by (induction ds) auto

lemma thenE_Inr: "thenE x f = Inr y \<longleftrightarrow> (\<exists>z. x = Inr z \<and> f z = Inr y)"
  by (cases x) (simp_all add: thenE_def)

lemma map_update_frame:
  "f (g (xs ! i)) = f (xs ! i) \<Longrightarrow> map f (xs[i := g (xs ! i)]) = map f xs"
proof (cases "i < length xs")
  case True
  assume "f (g (xs ! i)) = f (xs ! i)"
  with True show ?thesis by (simp add: map_update list_update_same_conv)
next
  case False
  then show ?thesis by (simp add: list_update_beyond)
qed


lemma ready_frame_refl: "ready_frame s s"
  by (simp add: ready_frame_def)

lemma ready_frame_trans: "ready_frame s s' \<Longrightarrow> ready_frame s' s'' \<Longrightarrow> ready_frame s s''"
  by (simp add: ready_frame_def)

lemma ready_frame_emit: "filter creation es = [] \<Longrightarrow> ready_frame s (emit es s)"
  by (simp add: ready_frame_def)

lemma ready_frame_update:
  "unready (g (objects s ! i)) = unready (objects s ! i) \<Longrightarrow> ready_frame s (update_object i g s)"
  by (simp add: ready_frame_def map_update_frame)

lemma ready_frame_gatherings: "ready_frame s (s\<lparr>gatherings := gs\<rparr>)"
  by (simp add: ready_frame_def)

lemma ready_frame_clear: "ready_frame s (getResultInstances_clear g s)"
  by (simp add: ready_frame_def getResultInstances_clear_def Let_def)

lemma creation_hooks [simp]:
  "filter creation (map (\<lambda>fn. Cleared fn i) fns) = []"
  "filter creation (map (\<lambda>fn. Instantiated fn i) fns) = []"
  "filter creation (notify_all h xs ys) = []"
  by (induction fns) (simp_all add: notify_all_def filter_concat o_def)

lemma ready_frame_call_ready: "ready_frame s (call_ready i cb s)"
proof (cases cb)
  case (SetReady j)
  then show ?thesis by (simp add: ready_frame_update unready_def)
next
  case (UserReady h)
  then show ?thesis by (simp add: ready_frame_emit)
next
  case (Slot g index)
  then show ?thesis
    using ready_frame_trans[OF ready_frame_gatherings ready_frame_clear] by simp
qed

lemma ready_frame_fold: "ready_frame s (fold (call_ready i) cbs s)"
proof (induction cbs arbitrary: s)
  case Nil
  then show ?case by (simp add: ready_frame_refl)
next
  case (Cons cb cbs)
  show ?case using ready_frame_trans[OF ready_frame_call_ready Cons] by simp
qed

lemma hooks_forEach_Inr:
  "hooks_forEach x ev = Inr es \<Longrightarrow> es = (case x of None \<Rightarrow> [] | Some y \<Rightarrow> map ev (as_array y))"
  by (auto simp: hooks_forEach_def split: option.splits one_or_many.splits)

lemma instance_done_Inr:
  assumes "instance_done i s = Inr s'"
  obtains d es where "map_of (definitions s) (proto (objects s ! i)) = Some d"
    and "s' = emit es (fold (call_ready i) (onReady_list s i) s)"
    and "es = (case clear d of None \<Rightarrow> [] | Some y \<Rightarrow> map (\<lambda>fn. Cleared fn i) (as_array y))"
    and "own_onReady (objects s ! i) \<noteq> None \<or> onReady d \<noteq> None"
proof -
  from assms obtain d where d: "map_of (definitions s) (proto (objects s ! i)) = Some d"
    by (auto simp: instance_done_def split: option.splits)
  from assms d obtain cbs es where
    cbs: "(case own_onReady (objects s ! i) of
               Some cbs \<Rightarrow> Inr cbs
             | None \<Rightarrow>
                 (case onReady d of
                    Some (Many fns) \<Rightarrow> Inr (map UserReady fns)
                  | Some (One fn) \<Rightarrow> Inr [UserReady fn]
                  | None \<Rightarrow> Inl TypeError)) = Inr cbs"
    and es: "hooks_forEach (clear d) (\<lambda>fn. Cleared fn i) = Inr es"
    and s': "s' = emit es (fold (call_ready i) cbs s)"
    by (auto simp: instance_done_def thenE_Inr Let_def)
  from cbs d have "cbs = onReady_list s i"
    by (auto simp: onReady_list_def split: option.splits one_or_many.splits)
  moreover from cbs have "own_onReady (objects s ! i) \<noteq> None \<or> onReady d \<noteq> None"
    by (auto split: option.splits)
  ultimately show thesis using that d s' hooks_forEach_Inr[OF es] by blast
qed

lemma ready_frame_done:
  assumes "instance_done i s = Inr s'"
  shows "ready_frame s s'"
  using assms
  by (elim instance_done_Inr)
     (auto intro!: ready_frame_trans[OF ready_frame_fold ready_frame_emit] split: option.splits)

lemma ready_frame_push: "ready_frame s (pushOnReady i cb s)"
  by (simp add: pushOnReady_def ready_frame_update unready_def)

lemma ready_frame_unshift: "ready_frame s (unshiftOnReady i cb s)"
  by (simp add: unshiftOnReady_def ready_frame_update unready_def)

lemma ready_frame_found: "ready_frame s (found_instance i cb s)"
  by (simp add: found_instance_def ready_frame_refl ready_frame_call_ready ready_frame_push
      split: option.splits)

lemma ready_frame_finish: "finish_instance pk i s = Inr s' \<Longrightarrow> ready_frame s s'"
  by (auto simp: finish_instance_def ready_frame_update unready_def ready_frame_done
      split: option.splits if_splits)

lemma ready_frame_sequence: "ready_sequence pk i cb s = Inr s' \<Longrightarrow> ready_frame s s'"
proof -
  assume a: "ready_sequence pk i cb s = Inr s'"
  then obtain provider where p: "map_of (definitions s) pk = Some provider"
    by (auto simp: ready_sequence_def split: option.splits)
  define s1 where "s1 = emit (hooks_each (onInstantiated provider) (\<lambda>fn. Instantiated fn i)) s"
  define s2 where "s2 = unshiftOnReady i (SetReady i) s1"
  define s3 where "s3 = (case cb of None \<Rightarrow> s2 | Some c \<Rightarrow> pushOnReady i c s2)"
  have f: "finish_instance pk i s3 = Inr s'"
    using a p unfolding s3_def s2_def s1_def by (simp add: ready_sequence_def Let_def)
  have "ready_frame s s1"
    by (simp add: s1_def ready_frame_emit hooks_each_def split: option.splits)
  moreover have "ready_frame s1 s2" by (simp add: s2_def ready_frame_unshift)
  moreover have "ready_frame s2 s3"
    by (simp add: s3_def ready_frame_refl ready_frame_push split: option.splits)
  ultimately show ?thesis using ready_frame_finish[OF f] by (blast intro: ready_frame_trans)
qed

lemma ready_frame_store_ready: "store_ready i s = Inr s' \<Longrightarrow> ready_frame s s'"
  unfolding store_ready_def
  by (rule ready_frame_trans[OF ready_frame_update ready_frame_done]) (simp_all add: unready_def)

lemma notified_only_simps [simp]:
  "notified_only []"
  "notified_only (es @ es') \<longleftrightarrow> notified_only es \<and> notified_only es'"
  "notified_only (notify_all h xs ys)"
  by (auto simp: notified_only_def notify_all_def)

lemma wire_frame_refl: "wire_frame s s"
  by (simp add: wire_frame_def)

lemma wire_frame_trans: "wire_frame s s' \<Longrightarrow> wire_frame s' s'' \<Longrightarrow> wire_frame s s''"
  by (auto simp: wire_frame_def)

lemma wire_frame_emit: "notified_only es \<Longrightarrow> wire_frame s (emit es s)"
  by (simp add: wire_frame_def)

lemma wire_frame_update_object:
  "unwired (g (objects s ! i)) = unwired (objects s ! i) \<Longrightarrow> wire_frame s (update_object i g s)"
  by (simp add: wire_frame_def map_update_frame)

lemma wire_frame_update_definition:
  assumes "\<And>d. (g d)\<lparr>subscribers := None, subscribeTo := None\<rparr> = d\<lparr>subscribers := None, subscribeTo := None\<rparr>"
  shows "wire_frame s (update_definition pk g s)"
proof -
  have "map unwired_definition (map (\<lambda>(k, d). if k = pk then (k, g d) else (k, d)) ds) =
        map unwired_definition ds" for ds
    by (induction ds) (auto simp: unwired_definition_def assms)
  then show ?thesis by (simp add: wire_frame_def)
qed

lemma wire_frame_subscribe_all: "wire_frame s (subscribe_all h pk xs s)"
proof (induction xs arbitrary: s)
  case Nil
  then show ?case by (simp add: wire_frame_refl)
next
  case (Cons x xs)
  have "wire_frame s (update_object x (\<lambda>obj. obj\<lparr>listeners := listeners obj @ [Listener h x pk]\<rparr>) s)"
    by (rule wire_frame_update_object) (simp add: unwired_def)
  then show ?case using Cons by (auto intro: wire_frame_trans)
qed

lemma subscribeTo_round_Inr:
  assumes "subscribeTo_round pk i key s = Inr s'"
  obtains provider handler supProvider where
    "map_of (definitions s) pk = Some provider"
    "map_of (case subscribeTo provider of None \<Rightarrow> [] | Some x \<Rightarrow> x) key = Some handler"
    "map_of (definitions s) key = Some supProvider"
    "s' = emit (notify_all handler (case instances supProvider of None \<Rightarrow> [] | Some xs \<Rightarrow> xs) [i])
            (if map_of (case subscribers supProvider of None \<Rightarrow> [] | Some x \<Rightarrow> x) pk = None
             then subscribe_all handler pk (case instances supProvider of None \<Rightarrow> [] | Some xs \<Rightarrow> xs)
                    (update_definition key
                       (\<lambda>d. d\<lparr>subscribers := Some (obj_put (case subscribers supProvider of None \<Rightarrow> [] | Some x \<Rightarrow> x) pk handler)\<rparr>) s)
             else update_definition key
                    (\<lambda>d. d\<lparr>subscribers := Some (case subscribers supProvider of None \<Rightarrow> [] | Some x \<Rightarrow> x)\<rparr>) s)"
proof -
  from assms obtain provider where 1: "map_of (definitions s) pk = Some provider"
    by (cases "map_of (definitions s) pk") (simp_all add: subscribeTo_round_def)
  from assms 1 obtain handler where
    2: "map_of (case subscribeTo provider of None \<Rightarrow> [] | Some x \<Rightarrow> x) key = Some handler"
    by (cases "map_of (case subscribeTo provider of None \<Rightarrow> [] | Some x \<Rightarrow> x) key")
       (simp_all add: subscribeTo_round_def)
  from assms 1 2 obtain supProvider where 3: "map_of (definitions s) key = Some supProvider"
    by (cases "map_of (definitions s) key") (simp_all add: subscribeTo_round_def)
  from assms 1 2 3 show thesis
    by (intro that[of provider handler supProvider]) (simp_all add: subscribeTo_round_def Let_def)
qed

lemma subscribers_round_Inr:
  assumes "subscribers_round pk i key s = Inr s'"
  obtains provider handler subProvider where
    "map_of (definitions s) pk = Some provider"
    "map_of (case subscribers provider of None \<Rightarrow> [] | Some x \<Rightarrow> x) key = Some handler"
    "map_of (definitions s) key = Some subProvider"
    "s' = emit (notify_all handler [i] (instances_of s key))
            (update_object i (\<lambda>obj. obj\<lparr>listeners := listeners obj @ [Listener handler i key]\<rparr>)
               (update_definition key
                  (\<lambda>d. d\<lparr>subscribeTo := Some
                     (if map_of (case subscribeTo subProvider of None \<Rightarrow> [] | Some x \<Rightarrow> x) pk = None
                      then obj_put (case subscribeTo subProvider of None \<Rightarrow> [] | Some x \<Rightarrow> x) pk handler
                      else (case subscribeTo subProvider of None \<Rightarrow> [] | Some x \<Rightarrow> x))\<rparr>) s))"
proof -
  from assms obtain provider where 1: "map_of (definitions s) pk = Some provider"
    by (cases "map_of (definitions s) pk") (simp_all add: subscribers_round_def)
  from assms 1 obtain handler where
    2: "map_of (case subscribers provider of None \<Rightarrow> [] | Some x \<Rightarrow> x) key = Some handler"
    by (cases "map_of (case subscribers provider of None \<Rightarrow> [] | Some x \<Rightarrow> x) key")
       (simp_all add: subscribers_round_def)
  from assms 1 2 obtain subProvider where 3: "map_of (definitions s) key = Some subProvider"
    by (cases "map_of (definitions s) key") (simp_all add: subscribers_round_def)
  have inst: "instances_of (update_object i g (update_definition key (\<lambda>d. d\<lparr>subscribeTo := e\<rparr>) s)) key =
              instances_of s key" for g e
    by (simp add: instances_of_def map_of_update_definition split: option.splits)
  from assms 1 2 3 show thesis
    by (intro that[of provider handler subProvider])
       (simp_all add: subscribers_round_def Let_def inst)
qed

lemma wire_frame_subscribers_round:
  assumes "subscribers_round pk i key s = Inr s'"
  shows "wire_frame s s'"
  using assms
  by (elim subscribers_round_Inr)
     (auto intro!: wire_frame_trans[OF wire_frame_update_definition
          wire_frame_trans[OF wire_frame_update_object wire_frame_emit]] simp: unwired_def)

lemma wire_frame_subscribeTo_round:
  assumes "subscribeTo_round pk i key s = Inr s'"
  shows "wire_frame s s'"
proof -
  have u: "wire_frame s (update_definition key (\<lambda>d. d\<lparr>subscribers := Some subs\<rparr>) s)" for subs
    by (rule wire_frame_update_definition) simp
  from assms show ?thesis
  proof (rule subscribeTo_round_Inr)
    fix provider handler supProvider
    assume "s' = emit (notify_all handler (case instances supProvider of None \<Rightarrow> [] | Some xs \<Rightarrow> xs) [i])
            (if map_of (case subscribers supProvider of None \<Rightarrow> [] | Some x \<Rightarrow> x) pk = None
             then subscribe_all handler pk (case instances supProvider of None \<Rightarrow> [] | Some xs \<Rightarrow> xs)
                    (update_definition key
                       (\<lambda>d. d\<lparr>subscribers := Some (obj_put (case subscribers supProvider of None \<Rightarrow> [] | Some x \<Rightarrow> x) pk handler)\<rparr>) s)
             else update_definition key
                    (\<lambda>d. d\<lparr>subscribers := Some (case subscribers supProvider of None \<Rightarrow> [] | Some x \<Rightarrow> x)\<rparr>) s)"
    then show ?thesis
      by (auto intro!: wire_frame_trans[OF _ wire_frame_emit] wire_frame_trans[OF u wire_frame_subscribe_all] u)
  qed
qed

lemma wire_frame_subscribers_loop:
  "subscribers_loop pk i keys s = Inr s' \<Longrightarrow> wire_frame s s'"
proof (induction keys arbitrary: s)
  case Nil
  then show ?case by (simp add: wire_frame_refl)
next
  case (Cons key keys)
  then show ?case
    by (auto simp: thenE_Inr intro: wire_frame_trans[OF wire_frame_subscribers_round])
qed

lemma wire_frame_subscribeTo_loop:
  "subscribeTo_loop pk i keys s = Inr s' \<Longrightarrow> wire_frame s s'"
proof (induction keys arbitrary: s)
  case Nil
  then show ?case by (simp add: wire_frame_refl)
next
  case (Cons key keys)
  then show ?case
    by (auto simp: thenE_Inr intro: wire_frame_trans[OF wire_frame_subscribeTo_round])
qed

lemma wire_frame_wire_instance: "wire_instance pk i s = Inr s' \<Longrightarrow> wire_frame s s'"
  by (auto simp: wire_instance_def thenE_Inr split: option.splits
      intro: wire_frame_trans[OF wire_frame_subscribers_loop wire_frame_subscribeTo_loop])

lemma create_instance_simps:
  "objects (create_instance P f pk provider k static s) =
     objects s @ [\<lparr>proto = pk, providerKey = k, isStatic = static, ready = False,
                 own_onReady = None, actionCreators = actions provider, listeners = [],
                 store_onReady = fst (createProviderStore P pk k),
                 initializedReplication = snd (createProviderStore P pk k),
                 done_pending = False\<rparr>]"
  "plog (create_instance P f pk provider k static s) = plog s @ [StoreCreated (length (objects s))]"
  "callers (create_instance P f pk provider k static s) = callers s"
  "gatherings (create_instance P f pk provider k static s) = gatherings s"
  "globalProviderInstances (create_instance P f pk provider k static s) =
     (if isGlobal provider then obj_put (globalProviderInstances s) k (length (objects s))
      else globalProviderInstances s)"
  "tables (create_instance P f pk provider k static s) =
     (case providerInstances (callers s ! f) of
        None \<Rightarrow> tables s
      | Some t \<Rightarrow> (tables s)[t := obj_put (tables s ! t) k (length (objects s))])"
  "definitions (create_instance P f pk provider k static s) =
     map (\<lambda>(k, d). if k = pk
            then (k, d\<lparr>instances := Some ((case instances d of None \<Rightarrow> [] | Some xs \<Rightarrow> xs) @ [length (objects s)])\<rparr>)
            else (k, d)) (definitions s)"
  by (simp_all add: create_instance_def Let_def split: option.splits)

lemma new_instance_Inr:
  assumes "new_instance P f pk k static cb s = Inr (i, s')"
  obtains provider es s2 where
    "map_of (definitions s) pk = Some provider"
    "hooks_forEach (wait (install_thunk provider)) Waited = Inr es"
    "i = length (objects s)"
    "wire_instance pk i
       (create_instance P f pk (install_thunk provider) k static
          (emit es (update_definition pk install_thunk s))) = Inr s2"
    "ready_sequence pk i cb s2 = Inr s'"
proof -
  from assms obtain provider where 1: "map_of (definitions s) pk = Some provider"
    by (cases "map_of (definitions s) pk")
       (simp_all add: new_instance_def Let_def map_of_update_definition)
  from assms 1 show thesis
    by (auto simp: new_instance_def Let_def map_of_update_definition thenE_Inr intro: that)
qed

lemma ready_frame_objects:
  assumes "ready_frame s s'"
  shows "length (objects s') = length (objects s)"
    and "i < length (objects s) \<Longrightarrow> unready (objects s' ! i) = unready (objects s ! i)"
proof -
  from assms have m: "map unready (objects s') = map unready (objects s)"
    by (simp add: ready_frame_def)
  from m show l: "length (objects s') = length (objects s)" by (rule map_eq_imp_length_eq)
  assume "i < length (objects s)"
  with l show "unready (objects s' ! i) = unready (objects s ! i)"
    using nth_map[of i "objects s'" unready] nth_map[of i "objects s" unready] m by simp
qed

lemma wire_frame_objects:
  assumes "wire_frame s s'"
  shows "length (objects s') = length (objects s)"
    and "i < length (objects s) \<Longrightarrow> unwired (objects s' ! i) = unwired (objects s ! i)"
proof -
  from assms have m: "map unwired (objects s') = map unwired (objects s)"
    by (simp add: wire_frame_def)
  from m show l: "length (objects s') = length (objects s)" by (rule map_eq_imp_length_eq)
  assume "i < length (objects s)"
  with l show "unwired (objects s' ! i) = unwired (objects s ! i)"
    using nth_map[of i "objects s'" unwired] nth_map[of i "objects s" unwired] m by simp
qed

lemma unready_fields:
  assumes "unready a = unready b"
  shows "proto a = proto b" "providerKey a = providerKey b" "isStatic a = isStatic b"
    "listeners a = listeners b" "store_onReady a = store_onReady b"
    "initializedReplication a = initializedReplication b" "actionCreators a = actionCreators b"
proof -
  have "proto (unready a) = proto (unready b)" "providerKey (unready a) = providerKey (unready b)"
    "isStatic (unready a) = isStatic (unready b)" "listeners (unready a) = listeners (unready b)"
    "store_onReady (unready a) = store_onReady (unready b)"
    "initializedReplication (unready a) = initializedReplication (unready b)"
    "actionCreators (unready a) = actionCreators (unready b)"
    using assms by simp_all
  then show "proto a = proto b" "providerKey a = providerKey b" "isStatic a = isStatic b"
    "listeners a = listeners b" "store_onReady a = store_onReady b"
    "initializedReplication a = initializedReplication b" "actionCreators a = actionCreators b"
    by (simp_all add: unready_def)
qed

lemma unwired_fields:
  assumes "unwired a = unwired b"
  shows "proto a = proto b" "providerKey a = providerKey b" "isStatic a = isStatic b"
    "ready a = ready b" "own_onReady a = own_onReady b" "done_pending a = done_pending b"
    "store_onReady a = store_onReady b"
    "initializedReplication a = initializedReplication b" "actionCreators a = actionCreators b"
proof -
  have "proto (unwired a) = proto (unwired b)" "providerKey (unwired a) = providerKey (unwired b)"
    "isStatic (unwired a) = isStatic (unwired b)" "ready (unwired a) = ready (unwired b)"
    "own_onReady (unwired a) = own_onReady (unwired b)"
    "done_pending (unwired a) = done_pending (unwired b)"
    "store_onReady (unwired a) = store_onReady (unwired b)"
    "initializedReplication (unwired a) = initializedReplication (unwired b)"
    "actionCreators (unwired a) = actionCreators (unwired b)"
    using assms by simp_all
  then show "proto a = proto b" "providerKey a = providerKey b" "isStatic a = isStatic b"
    "ready a = ready b" "own_onReady a = own_onReady b" "done_pending a = done_pending b"
    "store_onReady a = store_onReady b"
    "initializedReplication a = initializedReplication b" "actionCreators a = actionCreators b"
    by (simp_all add: unwired_def)
qed

lemma new_instance_object:
  assumes "new_instance P f pk k static cb s = Inr (i, s')"
  shows "i = length (objects s)" "length (objects s') = Suc (length (objects s))"
    "proto (objects s' ! i) = pk" "providerKey (objects s' ! i) = k"
    "isStatic (objects s' ! i) = static"
proof -
  from assms obtain provider es s2 where
    i: "i = length (objects s)" and
    w: "wire_instance pk i
       (create_instance P f pk (install_thunk provider) k static
          (emit es (update_definition pk install_thunk s))) = Inr s2" and
    r: "ready_sequence pk i cb s2 = Inr s'"
    by (rule new_instance_Inr)
  define s1 where "s1 = create_instance P f pk (install_thunk provider) k static
          (emit es (update_definition pk install_thunk s))"
  have o1: "objects s1 = objects s @ [\<lparr>proto = pk, providerKey = k, isStatic = static, ready = False,
                 own_onReady = None, actionCreators = actions (install_thunk provider), listeners = [],
                 store_onReady = fst (createProviderStore P pk k),
                 initializedReplication = snd (createProviderStore P pk k),
                 done_pending = False\<rparr>]"
    by (simp add: s1_def create_instance_simps)
  have wf: "wire_frame s1 s2" using w unfolding s1_def by (rule wire_frame_wire_instance)
  have rf: "ready_frame s2 s'" using r by (rule ready_frame_sequence)
  have l1: "length (objects s1) = Suc i" by (simp add: o1 i)
  have l2: "length (objects s2) = Suc i" using wire_frame_objects(1)[OF wf] l1 by simp
  have a: "unwired (objects s2 ! i) = unwired (objects s1 ! i)"
    using wire_frame_objects(2)[OF wf, of i] l1 by simp
  have b: "unready (objects s' ! i) = unready (objects s2 ! i)"
    using ready_frame_objects(2)[OF rf, of i] l2 by simp
  have c: "objects s1 ! i = \<lparr>proto = pk, providerKey = k, isStatic = static, ready = False,
                 own_onReady = None, actionCreators = actions (install_thunk provider), listeners = [],
                 store_onReady = fst (createProviderStore P pk k),
                 initializedReplication = snd (createProviderStore P pk k),
                 done_pending = False\<rparr>"
    by (simp add: o1 i)
  show "i = length (objects s)" by (rule i)
  show "length (objects s') = Suc (length (objects s))"
    using ready_frame_objects(1)[OF rf] l2 i by simp
  show "proto (objects s' ! i) = pk"
    using unready_fields(1)[OF b] unwired_fields(1)[OF a] c by simp
  show "providerKey (objects s' ! i) = k"
    using unready_fields(2)[OF b] unwired_fields(2)[OF a] c by simp
  show "isStatic (objects s' ! i) = static"
    using unready_fields(3)[OF b] unwired_fields(3)[OF a] c by simp
qed

text \<open>
  C5. When \<^verbatim>\<open>instantiateProvider\<close> finds no instance under the resolved key and
  returns, it returns a new instance whose \<^verbatim>\<open>providerKey\<close> is the resolved key
  and whose \<^verbatim>\<open>isStatic\<close> is true exactly when the key argument is not a function
  (it is missing, or a literal key, whichever it is) or the key the function computes is
  the definition's own key.
\<close>

theorem isStatic_created:
  assumes "map_of (definitions s) pk = Some provider"
    and "lookup_instance s provider (callers s ! f) (fst (resolve_key pk karg (callers s ! f))) = None"
    and "instantiateProvider P f pk karg readyCallback s = Inr (i, s')"
  shows "i = length (objects s) \<and> length (objects s') = Suc (length (objects s)) \<and>
         proto (objects s' ! i) = pk \<and>
         providerKey (objects s' ! i) =
           (case karg of None \<Rightarrow> pk | Some (Literal k) \<Rightarrow> k | Some (Computed fn) \<Rightarrow> fn (callers s ! f)) \<and>
         isStatic (objects s' ! i) =
           (case karg of
              None \<Rightarrow> True
            | Some (Literal k) \<Rightarrow> True
            | Some (Computed fn) \<Rightarrow> fn (callers s ! f) = pk)"
proof -
  define c where "c = callers s ! f"
  have "new_instance P f pk (fst (resolve_key pk karg c)) (snd (resolve_key pk karg c)) readyCallback
          (mark_relevant f (fst (resolve_key pk karg c)) s) = Inr (i, s')"
    using assms by (simp add: instantiateProvider_def Let_def c_def)
  from new_instance_object[OF this]
  have "i = length (objects (mark_relevant f (fst (resolve_key pk karg c)) s))"
    "length (objects s') = Suc (length (objects (mark_relevant f (fst (resolve_key pk karg c)) s)))"
    "proto (objects s' ! i) = pk" "providerKey (objects s' ! i) = fst (resolve_key pk karg c)"
    "isStatic (objects s' ! i) = snd (resolve_key pk karg c)" by simp_all
  moreover have "objects (mark_relevant f k s) = objects s" for k
    by (simp add: mark_relevant_def split: option.splits)
  ultimately show ?thesis
    by (simp add: resolve_key_def c_def[symmetric] split: option.splits key_arg.splits)
qed

lemmas pstate_simps =
  example_penv_def example_definition_def example_definitions_def example_caller_def
  example_pstate_def pinit_def instantiateProvider_def new_instance_def resolve_key_def
  lookup_instance_def mark_relevant_def found_instance_def install_thunk_def
  create_instance_def finish_instance_def subscription_keys_def wire_instance_def
  ready_sequence_def subscribers_round_def subscribeTo_round_def instance_done_def
  hooks_forEach_def hooks_each_def notify_all_def instances_of_def onReady_list_def
  pushOnReady_def unshiftOnReady_def unshiftMiddleware_def update_definition_def
  update_object_def emit_def thenE_def Let_def key_before_def array_index_def
  getResultInstances_clear_def array_set_def

lemma example_dynamic:
  "\<exists>s'. instantiateProvider example_penv 0 ''theme'' (Some (Computed (\<lambda>c. ''theme''))) None
          example_pstate = Inr (0, s')"
  by (simp add: pstate_simps)

theorem isStatic_literal_counterexample:
  "map_sum id (\<lambda>r. (isStatic (objects (snd r) ! fst r), providerKey (objects (snd r) ! fst r)))
     (instantiateProvider example_penv 0 ''theme'' (Some (Literal ''dark'')) None example_pstate) =
   Inr (True, ''dark'')"
  by (simp add: pstate_simps)

theorem isStatic_created_witness:
  "\<exists>s'. instantiateProvider example_penv 0 ''theme'' (Some (Computed (\<lambda>c. ''theme''))) None
          example_pstate = Inr (0, s') \<and>
        providerKey (objects s' ! 0) = ''theme'' \<and> isStatic (objects s' ! 0)"
proof -
  obtain s' where r: "instantiateProvider example_penv 0 ''theme''
      (Some (Computed (\<lambda>c. ''theme''))) None example_pstate = Inr (0, s')"
    using example_dynamic by blast
  have "map_of (definitions example_pstate) ''theme'' = Some (snd (example_definitions ! 0))"
    by (simp add: pstate_simps)
  moreover have "lookup_instance example_pstate (snd (example_definitions ! 0))
      (callers example_pstate ! 0)
      (fst (resolve_key ''theme'' (Some (Computed (\<lambda>c. ''theme''))) (callers example_pstate ! 0))) = None"
    by (simp add: pstate_simps)
  ultimately show ?thesis using isStatic_created[OF _ _ r] r by simp
qed


lemma mark_relevant_simps [simp]:
  "definitions (mark_relevant f k s) = definitions s"
  "globalProviderInstances (mark_relevant f k s) = globalProviderInstances s"
  "tables (mark_relevant f k s) = tables s"
  "objects (mark_relevant f k s) = objects s"
  "gatherings (mark_relevant f k s) = gatherings s"
  "plog (mark_relevant f k s) = plog s"
  "map unmarked (callers (mark_relevant f k s)) = map unmarked (callers s)"
  by (simp_all add: mark_relevant_def map_update_frame unmarked_def split: option.splits)

lemma dedup_frame_refl: "dedup_frame s s"
  by (simp add: dedup_frame_def)

lemma dedup_frame_trans: "dedup_frame s s' \<Longrightarrow> dedup_frame s' s'' \<Longrightarrow> dedup_frame s s''"
  by (simp add: dedup_frame_def)

lemma dedup_frame_found: "dedup_frame s (found_instance i cb (mark_relevant f k s))"
proof -
  have r: "ready_frame (mark_relevant f k s) (found_instance i cb (mark_relevant f k s))"
    by (rule ready_frame_found)
  from ready_frame_objects(1)[OF r] r show ?thesis
    by (simp add: dedup_frame_def ready_frame_def)
qed

lemma unmarked_nth:
  assumes "map unmarked cs' = map unmarked cs" and "f < length cs"
  shows "cs' ! f = (cs ! f)\<lparr>relevantProviders := relevantProviders (cs' ! f)\<rparr>"
proof -
  from assms have "length cs' = length cs" by (metis length_map)
  with assms have "unmarked (cs' ! f) = unmarked (cs ! f)"
    using nth_map[of f cs' unmarked] nth_map[of f cs unmarked] by simp
  then show ?thesis by (cases "cs' ! f"; cases "cs ! f") (simp add: unmarked_def)
qed

lemma instantiateProvider_found:
  assumes "registered s pk (fst (resolve_key pk karg (callers s ! f))) f i"
  shows "instantiateProvider P f pk karg cb s =
           Inr (i, found_instance i cb (mark_relevant f (fst (resolve_key pk karg (callers s ! f))) s))"
  using assms by (auto simp: registered_def instantiateProvider_def Let_def split: option.splits)

lemma global_flag_unwired:
  assumes "map unwired_definition ds' = map unwired_definition ds"
  shows "map global_flag ds' = map global_flag ds"
proof -
  have "map global_flag xs = map global_flag (map unwired_definition xs)" for xs
    by (simp add: global_flag_def unwired_definition_def)
  then show ?thesis using assms by metis
qed

lemma global_flag_update:
  assumes "\<And>d. isGlobal (g d) = isGlobal d"
  shows "map global_flag (map (\<lambda>(k, d). if k = pk then (k, g d) else (k, d)) ds) = map global_flag ds"
  by (induction ds) (auto simp: global_flag_def assms split: if_splits)

lemma map_of_global_flag:
  "map_of (map global_flag ds) k = map_option isGlobal (map_of ds k)"
  by (induction ds) (auto simp: global_flag_def)

lemma install_thunk_simps [simp]:
  "isGlobal (install_thunk d) = isGlobal d"
  "(case wait (install_thunk d) of None \<Rightarrow> [] | Some y \<Rightarrow> as_array y) =
     (case wait d of None \<Rightarrow> [] | Some y \<Rightarrow> as_array y)"
  by (auto simp: install_thunk_def unshiftMiddleware_def split: option.splits one_or_many.splits)

lemma wire_frame_creation:
  assumes "wire_frame s s'"
  shows "filter creation (plog s') = filter creation (plog s)"
proof -
  from assms obtain es where es: "plog s' = plog s @ es" "notified_only es"
    by (auto simp: wire_frame_def)
  from es(2) have "filter creation es = []"
    by (induction es) (auto simp: notified_only_def)
  with es(1) show ?thesis by simp
qed

lemma new_instance_effect:
  assumes "new_instance P f pk k static cb s = Inr (i, s')"
  obtains provider where "map_of (definitions s) pk = Some provider"
    and "globalProviderInstances s' =
           (if isGlobal provider then obj_put (globalProviderInstances s) k i
            else globalProviderInstances s)"
    and "tables s' =
           (case providerInstances (callers s ! f) of
              None \<Rightarrow> tables s
            | Some t \<Rightarrow> (tables s)[t := obj_put (tables s ! t) k i])"
    and "map global_flag (definitions s') = map global_flag (definitions s)"
    and "callers s' = callers s"
    and "filter creation (plog s') =
           filter creation (plog s) @
           map Waited (case wait provider of None \<Rightarrow> [] | Some y \<Rightarrow> as_array y) @ [StoreCreated i]"
proof -
  from assms obtain provider es s2 where
    p: "map_of (definitions s) pk = Some provider" and
    es: "hooks_forEach (wait (install_thunk provider)) Waited = Inr es" and
    i: "i = length (objects s)" and
    w: "wire_instance pk i
       (create_instance P f pk (install_thunk provider) k static
          (emit es (update_definition pk install_thunk s))) = Inr s2" and
    r: "ready_sequence pk i cb s2 = Inr s'"
    by (rule new_instance_Inr)
  define s0 where "s0 = emit es (update_definition pk install_thunk s)"
  define s1 where "s1 = create_instance P f pk (install_thunk provider) k static s0"
  have wf: "wire_frame s1 s2" using w unfolding s1_def s0_def by (rule wire_frame_wire_instance)
  have rf: "ready_frame s2 s'" using r by (rule ready_frame_sequence)
  have "es = map Waited (case wait (install_thunk provider) of None \<Rightarrow> [] | Some y \<Rightarrow> as_array y)"
    using hooks_forEach_Inr[OF es] by (cases "wait (install_thunk provider)") simp_all
  then have es': "es = map Waited (case wait provider of None \<Rightarrow> [] | Some y \<Rightarrow> as_array y)"
    by (simp only: install_thunk_simps(2))
  have g0: "globalProviderInstances s0 = globalProviderInstances s" by (simp add: s0_def)
  have t0: "tables s0 = tables s" by (simp add: s0_def)
  have o0: "objects s0 = objects s" by (simp add: s0_def)
  have c0: "callers s0 = callers s" by (simp add: s0_def)
  have l0: "plog s0 = plog s @ es" by (simp add: s0_def)
  have g1: "globalProviderInstances s1 =
      (if isGlobal provider then obj_put (globalProviderInstances s) k i
       else globalProviderInstances s)"
    unfolding s1_def create_instance_simps(5) g0 o0 i by simp
  have t1: "tables s1 =
      (case providerInstances (callers s ! f) of
         None \<Rightarrow> tables s
       | Some t \<Rightarrow> (tables s)[t := obj_put (tables s ! t) k i])"
    unfolding s1_def create_instance_simps(6) t0 o0 c0 i by (rule refl)
  have c1: "callers s1 = callers s" unfolding s1_def create_instance_simps(3) by (rule c0)
  have l1: "plog s1 = plog s @ es @ [StoreCreated i]"
    unfolding s1_def create_instance_simps(2) l0 o0 i by simp
  have 1: "globalProviderInstances s' =
           (if isGlobal provider then obj_put (globalProviderInstances s) k i
            else globalProviderInstances s)"
  proof -
    have "globalProviderInstances s' = globalProviderInstances s1"
      using wf rf by (simp add: wire_frame_def ready_frame_def)
    then show ?thesis by (simp only: g1)
  qed
  have 2: "tables s' =
           (case providerInstances (callers s ! f) of
              None \<Rightarrow> tables s
            | Some t \<Rightarrow> (tables s)[t := obj_put (tables s ! t) k i])"
  proof -
    have "tables s' = tables s1" using wf rf by (simp add: wire_frame_def ready_frame_def)
    then show ?thesis by (simp only: t1)
  qed
  have d0: "map global_flag (definitions s0) = map global_flag (definitions s)"
    unfolding s0_def emit_simps update_definition_simps by (rule global_flag_update) simp
  have d1: "map global_flag (definitions s1) = map global_flag (definitions s0)"
    unfolding s1_def create_instance_simps(7) by (rule global_flag_update) simp
  have d2: "map global_flag (definitions s2) = map global_flag (definitions s1)"
    by (rule global_flag_unwired) (use wf in \<open>simp add: wire_frame_def\<close>)
  have d3: "definitions s' = definitions s2" using rf by (simp add: ready_frame_def)
  have 3: "map global_flag (definitions s') = map global_flag (definitions s)"
    by (simp only: d3 d2 d1 d0)
  have 4: "callers s' = callers s"
  proof -
    have "callers s' = callers s1" using wf rf by (simp add: wire_frame_def ready_frame_def)
    then show ?thesis by (simp only: c1)
  qed
  have "filter creation es = es" by (simp add: es' filter_map o_def)
  then have "filter creation (plog s1) = filter creation (plog s) @ es @ [StoreCreated i]"
    by (simp add: l1)
  moreover have "filter creation (plog s2) = filter creation (plog s1)"
    using wf by (rule wire_frame_creation)
  moreover have "filter creation (plog s') = filter creation (plog s2)"
    using rf by (simp add: ready_frame_def)
  ultimately have 5: "filter creation (plog s') =
           filter creation (plog s) @
           map Waited (case wait provider of None \<Rightarrow> [] | Some y \<Rightarrow> as_array y) @ [StoreCreated i]"
    by (simp only: es')
  from p 1 2 3 4 5 show thesis by (rule that)
qed

lemma unmarked_caller:
  assumes "map unmarked (callers s') = map unmarked (callers s)" and "f < length (callers s)"
  shows "(callers s' ! f)\<lparr>relevantProviders := r\<rparr> = (callers s ! f)\<lparr>relevantProviders := r\<rparr>"
    and "providerInstances (callers s' ! f) = providerInstances (callers s ! f)"
    and "length (callers s') = length (callers s)"
proof -
  have e: "callers s' ! f = (callers s ! f)\<lparr>relevantProviders := relevantProviders (callers s' ! f)\<rparr>"
    by (rule unmarked_nth[OF assms])
  show "(callers s' ! f)\<lparr>relevantProviders := r\<rparr> = (callers s ! f)\<lparr>relevantProviders := r\<rparr>"
    by (subst e) simp
  show "providerInstances (callers s' ! f) = providerInstances (callers s ! f)"
    by (subst e) simp
  show "length (callers s') = length (callers s)" using assms(1) by (metis length_map)
qed

lemma resolve_key_self:
  assumes "\<forall>r. fst (resolve_key pk karg (c\<lparr>relevantProviders := r\<rparr>)) = k"
  shows "fst (resolve_key pk karg c) = k"
  using assms[rule_format, of "relevantProviders c"] by simp

lemma found_calls:
  assumes "map_of (definitions s1) pk = Some d"
    and "if isGlobal d then map_of (globalProviderInstances s1) k = Some i
         else map_of (tables s1 ! t) k = Some i"
    and "\<forall>c \<in> set calls. fst c < length (callers s1) \<and>
           (\<forall>r. fst (resolve_key pk (fst (snd c)) ((callers s1 ! fst c)\<lparr>relevantProviders := r\<rparr>)) = k) \<and>
           (isGlobal d \<or> providerInstances (callers s1 ! fst c) = Some t)"
    and "instantiate_each P pk calls s1 = Inr (is, s')"
  shows "is = replicate (length calls) i \<and> dedup_frame s1 s'"
  using assms
proof (induction calls arbitrary: s1 "is")
  case Nil
  then show ?case by (simp add: dedup_frame_refl)
next
  case (Cons c calls)
  obtain f karg cb where c: "c = (f, karg, cb)" by (cases c)
  from Cons.prems(3) have f: "f < length (callers s1)"
    and key: "\<forall>r. fst (resolve_key pk karg ((callers s1 ! f)\<lparr>relevantProviders := r\<rparr>)) = k"
    and tab: "isGlobal d \<or> providerInstances (callers s1 ! f) = Some t"
    by (simp_all add: c)
  have k: "fst (resolve_key pk karg (callers s1 ! f)) = k" by (rule resolve_key_self[OF key])
  have "lookup_instance s1 d (callers s1 ! f) k = Some i"
    using Cons.prems(2) tab by (auto simp: lookup_instance_def split: if_splits)
  then have "registered s1 pk (fst (resolve_key pk karg (callers s1 ! f))) f i"
    by (simp add: registered_def Cons.prems(1) k)
  from instantiateProvider_found[OF this, of P cb]
  have call: "instantiateProvider P f pk karg cb s1 = Inr (i, found_instance i cb (mark_relevant f k s1))"
    by (simp add: k)
  define s2 where "s2 = found_instance i cb (mark_relevant f k s1)"
  have fr: "dedup_frame s1 s2" unfolding s2_def by (rule dedup_frame_found)
  from Cons.prems(4) call obtain is' where
    rest: "instantiate_each P pk calls s2 = Inr (is', s')" and "is": "is = i # is'"
    by (auto simp: c thenE_Inr s2_def)
  have um: "map unmarked (callers s2) = map unmarked (callers s1)"
    using fr by (simp add: dedup_frame_def)
  have 1: "map_of (definitions s2) pk = Some d" using fr Cons.prems(1) by (simp add: dedup_frame_def)
  have 2: "if isGlobal d then map_of (globalProviderInstances s2) k = Some i
         else map_of (tables s2 ! t) k = Some i"
    using fr Cons.prems(2) by (simp add: dedup_frame_def)
  have 3: "\<forall>c \<in> set calls. fst c < length (callers s2) \<and>
           (\<forall>r. fst (resolve_key pk (fst (snd c)) ((callers s2 ! fst c)\<lparr>relevantProviders := r\<rparr>)) = k) \<and>
           (isGlobal d \<or> providerInstances (callers s2 ! fst c) = Some t)"
  proof
    fix c' assume c': "c' \<in> set calls"
    with Cons.prems(3) have a: "fst c' < length (callers s1)"
      and b: "\<forall>r. fst (resolve_key pk (fst (snd c')) ((callers s1 ! fst c')\<lparr>relevantProviders := r\<rparr>)) = k"
      and e: "isGlobal d \<or> providerInstances (callers s1 ! fst c') = Some t"
      by auto
    show "fst c' < length (callers s2) \<and>
           (\<forall>r. fst (resolve_key pk (fst (snd c')) ((callers s2 ! fst c')\<lparr>relevantProviders := r\<rparr>)) = k) \<and>
           (isGlobal d \<or> providerInstances (callers s2 ! fst c') = Some t)"
      using a b e unmarked_caller[OF um a] by simp
  qed
  from Cons.IH[OF 1 2 3 rest] have "is' = replicate (length calls) i" and "dedup_frame s2 s'"
    by blast+
  with fr "is" show ?case by (auto intro: dedup_frame_trans)
qed

lemma instantiateProvider_callers:
  assumes "instantiateProvider P f pk karg cb s = Inr (i, s1)"
  shows "map unmarked (callers s1) = map unmarked (callers s)"
proof -
  from assms obtain provider where p: "map_of (definitions s) pk = Some provider"
    by (auto simp: instantiateProvider_def split: option.splits)
  define k where "k = fst (resolve_key pk karg (callers s ! f))"
  show ?thesis
  proof (cases "lookup_instance s provider (callers s ! f) k")
    case (Some j)
    with assms p have "s1 = found_instance j cb (mark_relevant f k s)"
      by (auto simp: instantiateProvider_def Let_def k_def)
    then show ?thesis using dedup_frame_found[of s j cb f k] by (simp add: dedup_frame_def)
  next
    case None
    with assms p have "new_instance P f pk k (snd (resolve_key pk karg (callers s ! f))) cb
        (mark_relevant f k s) = Inr (i, s1)"
      by (simp add: instantiateProvider_def Let_def k_def)
    then have "callers s1 = callers (mark_relevant f k s)"
      by (rule new_instance_effect)
    then show ?thesis by simp
  qed
qed

lemma first_call:
  assumes p: "map_of (definitions s) pk = Some provider"
    and k: "fst (resolve_key pk karg (callers s ! f)) = k"
    and tab: "isGlobal provider \<or> (providerInstances (callers s ! f) = Some t \<and> t < length (tables s))"
    and run: "instantiateProvider P f pk karg cb s = Inr (i, s1)"
  shows "\<exists>d. map_of (definitions s1) pk = Some d \<and> isGlobal d = isGlobal provider"
    and "if isGlobal provider then map_of (globalProviderInstances s1) k = Some i
         else map_of (tables s1 ! t) k = Some i"
    and "lookup_instance s provider (callers s ! f) k = None \<Longrightarrow>
         length (objects s1) = Suc (length (objects s)) \<and>
         filter creation (plog s1) =
           filter creation (plog s) @
           map Waited (case wait provider of None \<Rightarrow> [] | Some y \<Rightarrow> as_array y) @ [StoreCreated i]"
proof -
  have all: "(\<exists>d. map_of (definitions s1) pk = Some d \<and> isGlobal d = isGlobal provider) \<and>
    (if isGlobal provider then map_of (globalProviderInstances s1) k = Some i
         else map_of (tables s1 ! t) k = Some i) \<and>
    (lookup_instance s provider (callers s ! f) k = None \<longrightarrow>
         length (objects s1) = Suc (length (objects s)) \<and>
         filter creation (plog s1) =
           filter creation (plog s) @
           map Waited (case wait provider of None \<Rightarrow> [] | Some y \<Rightarrow> as_array y) @ [StoreCreated i])"
  proof (cases "lookup_instance s provider (callers s ! f) k")
    case (Some j)
    with run p k have r: "i = j" "s1 = found_instance j cb (mark_relevant f k s)"
      by (auto simp: instantiateProvider_def Let_def)
    have fr: "dedup_frame s s1" unfolding r by (rule dedup_frame_found)
    from Some tab have "if isGlobal provider then map_of (globalProviderInstances s) k = Some i
         else map_of (tables s ! t) k = Some i"
      by (auto simp: lookup_instance_def r(1) split: if_splits)
    with fr p Some show ?thesis by (simp add: dedup_frame_def)
  next
    case None
    with run p k have n: "new_instance P f pk k (snd (resolve_key pk karg (callers s ! f))) cb
        (mark_relevant f k s) = Inr (i, s1)"
      by (simp add: instantiateProvider_def Let_def)
    from new_instance_object(1,2)[OF n] have i: "i = length (objects s)"
      and len: "length (objects s1) = Suc (length (objects s))" by simp_all
    from n show ?thesis
    proof (rule new_instance_effect)
      fix provider'
      assume p': "map_of (definitions (mark_relevant f k s)) pk = Some provider'"
        and g: "globalProviderInstances s1 =
           (if isGlobal provider' then obj_put (globalProviderInstances (mark_relevant f k s)) k i
            else globalProviderInstances (mark_relevant f k s))"
        and tb: "tables s1 =
           (case providerInstances (callers (mark_relevant f k s) ! f) of
              None \<Rightarrow> tables (mark_relevant f k s)
            | Some t \<Rightarrow> (tables (mark_relevant f k s))[t := obj_put (tables (mark_relevant f k s) ! t) k i])"
        and gf: "map global_flag (definitions s1) = map global_flag (definitions (mark_relevant f k s))"
        and lg: "filter creation (plog s1) =
           filter creation (plog (mark_relevant f k s)) @
           map Waited (case wait provider' of None \<Rightarrow> [] | Some y \<Rightarrow> as_array y) @ [StoreCreated i]"
      from p' p have pp: "provider' = provider" by simp
      have pi: "providerInstances (callers (mark_relevant f k s) ! f) = providerInstances (callers s ! f)"
        by (cases "f < length (callers s)")
           (simp_all add: mark_relevant_def list_update_beyond split: option.splits)
      from gf have "map_of (map global_flag (definitions s1)) pk = map_of (map global_flag (definitions s)) pk"
        by simp
      then have a: "\<exists>d. map_of (definitions s1) pk = Some d \<and> isGlobal d = isGlobal provider"
        by (auto simp: map_of_global_flag p)
      have b: "if isGlobal provider then map_of (globalProviderInstances s1) k = Some i
         else map_of (tables s1 ! t) k = Some i"
      proof (cases "isGlobal provider")
        case True
        then show ?thesis using g by (simp add: pp map_of_obj_put)
      next
        case False
        with tab have "providerInstances (callers s ! f) = Some t" "t < length (tables s)" by auto
        with False tb show ?thesis by (simp add: pi map_of_obj_put)
      qed
      from a b len lg show ?thesis by (simp add: pp)
    qed
  qed
  from all show "\<exists>d. map_of (definitions s1) pk = Some d \<and> isGlobal d = isGlobal provider"
    and "if isGlobal provider then map_of (globalProviderInstances s1) k = Some i
         else map_of (tables s1 ! t) k = Some i"
    and "lookup_instance s provider (callers s ! f) k = None \<Longrightarrow>
         length (objects s1) = Suc (length (objects s)) \<and>
         filter creation (plog s1) =
           filter creation (plog s) @
           map Waited (case wait provider of None \<Rightarrow> [] | Some y \<Rightarrow> as_array y) @ [StoreCreated i]"
    by blast+
qed


lemma example_three_calls:
  "\<exists>s'. instantiate_each example_penv ''theme''
          [(0, None, Some (UserReady (Hook 30))),
           (0, Some (Computed (\<lambda>c. ''theme'')), None),
           (0, Some (Literal ''theme''), Some (UserReady (Hook 31)))] example_pstate
        = Inr ([0, 0, 0], s')"
  by (simp add: pstate_simps)


end
